theory Spec2Isabelle
  imports Complex_Main
begin

section \<open>Sheet nesting (optimize.js)\<close>

text \<open>
  JavaScript numbers are modelled as rationals: all lengths, coordinates and the kerf are
  \<open>rat\<close>. In this section arithmetic is exact; the nesting code is given a second time
  further down with the result of every operation rounded, as doubles are. Counters
  that the code only ever increments from an integer (list lengths, sheet indices) are
  \<open>nat\<close>.
\<close>

subsection \<open>Data\<close>

text \<open>An entry of the \<open>parts\<close> array handed to \<open>nestParts\<close>.\<close>

record Part =
  p_name :: string
  p_qty :: nat
  p_w :: rat
  p_l :: rat
  p_category :: "string option"
  p_sourceItemId :: "string option"
  p_sourceItemName :: "string option"

text \<open>\<open>function Rectangle(w, h, id, name, category, sourceItemId, sourceItemName)\<close>.\<close>

record Rectangle =
  r_w :: rat
  r_h :: rat
  r_id :: nat
  r_name :: string
  r_category :: string
  r_sourceItemId :: "string option"
  r_sourceItemName :: "string option"

text \<open>A free rectangle \<open>{ x, y, w, h }\<close> of a sheet.\<close>

record FreeRect =
  f_x :: rat
  f_y :: rat
  f_w :: rat
  f_h :: rat

text \<open>The object \<open>{ rect, x, y, w, h, rotated }\<close> built by \<open>addPlacement\<close>.\<close>

record Placement =
  pl_rect :: Rectangle
  pl_x :: rat
  pl_y :: rat
  pl_w :: rat
  pl_h :: rat
  pl_rotated :: bool

text \<open>The object \<open>{ x, y, rotated }\<close> returned by \<open>findBestPosition\<close>.\<close>

record Position =
  pos_x :: rat
  pos_y :: rat
  pos_rotated :: bool

record Sheet =
  s_w :: rat
  s_h :: rat
  s_index :: nat
  s_kerf :: rat
  placements :: "Placement list"
  freeRects :: "FreeRect list"

record NestResult =
  sheets :: "Sheet list"
  unplaced :: "Rectangle list"

subsection \<open>Constructors\<close>

text \<open>
  \<open>x || d\<close> on a string that may be undefined: the default is taken for undefined and
  for the empty string.
\<close>

definition orDefault :: "string option \<Rightarrow> string \<Rightarrow> string" where
  "orDefault v d = (case v of None \<Rightarrow> d | Some s \<Rightarrow> if s = [] then d else s)"

definition orNull :: "string option \<Rightarrow> string option" where
  "orNull v = (case v of None \<Rightarrow> None | Some s \<Rightarrow> if s = [] then None else Some s)"

definition newRectangle ::
  "rat \<Rightarrow> rat \<Rightarrow> nat \<Rightarrow> string \<Rightarrow> string option \<Rightarrow> string option \<Rightarrow> string option
     \<Rightarrow> Rectangle" where
  "newRectangle w h ident name category sourceItemId sourceItemName =
     \<lparr> r_w = w, r_h = h, r_id = ident, r_name = name,
       r_category = orDefault category ''panel'',
       r_sourceItemId = orNull sourceItemId,
       r_sourceItemName = orNull sourceItemName \<rparr>"

text \<open>
  \<open>new Sheet(w, h, index, kerf)\<close>. The source stores \<open>kerf || 0\<close>, which on a number
  replaces only \<open>0\<close> (and NaN) by \<open>0\<close>: the identity on \<open>rat\<close>.
\<close>

definition newSheet :: "rat \<Rightarrow> rat \<Rightarrow> nat \<Rightarrow> rat \<Rightarrow> Sheet" where
  "newSheet w h index kerf =
     \<lparr> s_w = w, s_h = h, s_index = index, s_kerf = kerf, placements = [],
       freeRects = [\<lparr> f_x = 0, f_y = 0, f_w = w, f_h = h \<rparr>] \<rparr>"

subsection \<open>Free rectangle bookkeeping\<close>

text \<open>The containment test of \<open>removeDuplicateRects\<close>: \<open>r\<close> lies within \<open>o\<close>.\<close>

definition containedIn :: "FreeRect \<Rightarrow> FreeRect \<Rightarrow> bool" where
  "containedIn r o' =
     (f_x r \<ge> f_x o' \<and> f_y r \<ge> f_y o' \<and>
      f_x r + f_w r \<le> f_x o' + f_w o' \<and> f_y r + f_h r \<le> f_y o' + f_h o')"

text \<open>The inner loop over \<open>j\<close>: some other index holds a rectangle containing \<open>rects[i]\<close>.\<close>

definition containedAt :: "FreeRect list \<Rightarrow> nat \<Rightarrow> bool" where
  "containedAt rects i =
     (\<exists>j \<in> set [0..<length rects]. j \<noteq> i \<and> containedIn (rects ! i) (rects ! j))"

definition keepAt :: "FreeRect list \<Rightarrow> nat \<Rightarrow> bool" where
  "keepAt rects i = (\<not> containedAt rects i \<and> f_w (rects ! i) > 0 \<and> f_h (rects ! i) > 0)"

definition removeDuplicateRects :: "FreeRect list \<Rightarrow> FreeRect list" where
  "removeDuplicateRects rects =
     map (\<lambda>i. rects ! i) (filter (keepAt rects) [0..<length rects])"

text \<open>
  The body of the loop of \<open>updateFreeRects\<close> for one free rectangle \<open>f\<close> and the occupied
  area \<open>(occX, occY, occW, occH)\<close>: the rectangles pushed onto \<open>newFree\<close>, in order.
\<close>

definition splitFree :: "rat \<Rightarrow> rat \<Rightarrow> rat \<Rightarrow> rat \<Rightarrow> FreeRect \<Rightarrow> FreeRect list" where
  "splitFree occX occY occW occH f =
     (if occX \<ge> f_x f + f_w f \<or> occX + occW \<le> f_x f \<or>
         occY \<ge> f_y f + f_h f \<or> occY + occH \<le> f_y f
      then [f]
      else
        (if occX > f_x f
         then [\<lparr> f_x = f_x f, f_y = f_y f, f_w = occX - f_x f, f_h = f_h f \<rparr>] else []) @
        (if occX + occW < f_x f + f_w f
         then [\<lparr> f_x = occX + occW, f_y = f_y f,
                 f_w = (f_x f + f_w f) - (occX + occW), f_h = f_h f \<rparr>] else []) @
        (if occY > f_y f
         then [\<lparr> f_x = f_x f, f_y = f_y f, f_w = f_w f, f_h = occY - f_y f \<rparr>] else []) @
        (if occY + occH < f_y f + f_h f
         then [\<lparr> f_x = f_x f, f_y = occY + occH, f_w = f_w f,
                 f_h = (f_y f + f_h f) - (occY + occH) \<rparr>] else []))"

definition updateFreeRects :: "Sheet \<Rightarrow> Placement \<Rightarrow> Sheet" where
  "updateFreeRects sheet placement =
     (let kerf = s_kerf sheet;
          occX = pl_x placement;
          occY = pl_y placement;
          occW = pl_w placement + kerf;
          occH = pl_h placement + kerf;
          newFree = concat (map (splitFree occX occY occW occH) (freeRects sheet))
      in sheet \<lparr> freeRects := removeDuplicateRects newFree \<rparr>)"

text \<open>\<open>addPlacement\<close> mutates the sheet; the model returns the updated sheet.\<close>

definition mkPlacement :: "Rectangle \<Rightarrow> rat \<Rightarrow> rat \<Rightarrow> bool \<Rightarrow> Placement" where
  "mkPlacement rect x y rotated =
     \<lparr> pl_rect = rect, pl_x = x, pl_y = y,
       pl_w = (if rotated then r_h rect else r_w rect),
       pl_h = (if rotated then r_w rect else r_h rect),
       pl_rotated = rotated \<rparr>"

definition addPlacement :: "Sheet \<Rightarrow> Rectangle \<Rightarrow> rat \<Rightarrow> rat \<Rightarrow> bool \<Rightarrow> Sheet" where
  "addPlacement sheet rect x y rotated =
     (let p = mkPlacement rect x y rotated
      in updateFreeRects (sheet \<lparr> placements := placements sheet @ [p] \<rparr>) p)"

subsection \<open>Best short side fit\<close>

text \<open>
  The loop state of \<open>findBestPosition\<close> is the pair \<open>(best, bestScore)\<close>. It starts as
  \<open>(null, Infinity)\<close> and both components are always assigned together, so it is
  \<open>None\<close> (nothing found, score infinite) or \<open>Some (best, bestScore)\<close>.
\<close>

fun scoreBelow :: "rat \<Rightarrow> (Position \<times> rat) option \<Rightarrow> bool" where
  "scoreBelow score None = True"
| "scoreBelow score (Some (_, bestScore)) = (score < bestScore)"

definition tryFreeRect ::
  "rat \<Rightarrow> rat \<Rightarrow> (Position \<times> rat) option \<Rightarrow> FreeRect \<Rightarrow> (Position \<times> rat) option" where
  "tryFreeRect rectW rectH acc f =
     (let score = min (f_w f - rectW) (f_h f - rectH);
          acc1 = (if rectW \<le> f_w f \<and> rectH \<le> f_h f \<and> scoreBelow score acc
                  then Some (\<lparr> pos_x = f_x f, pos_y = f_y f, pos_rotated = False \<rparr>, score)
                  else acc);
          score2 = min (f_w f - rectH) (f_h f - rectW)
      in (if rectH \<le> f_w f \<and> rectW \<le> f_h f \<and> scoreBelow score2 acc1
          then Some (\<lparr> pos_x = f_x f, pos_y = f_y f, pos_rotated = True \<rparr>, score2)
          else acc1))"

text \<open>The \<open>kerf\<close> parameter is accepted and never read, as in the source.\<close>

definition findBestPosition :: "Sheet \<Rightarrow> rat \<Rightarrow> rat \<Rightarrow> rat \<Rightarrow> Position option" where
  "findBestPosition sheet rectW rectH kerf =
     map_option fst (foldl (tryFreeRect rectW rectH) None (freeRects sheet))"

subsection \<open>The nesting algorithm\<close>

definition partFits :: "rat \<Rightarrow> rat \<Rightarrow> rat \<Rightarrow> rat \<Rightarrow> bool" where
  "partFits partW partL sheetW sheetL =
     (let fitsNormal = (partW \<le> sheetW \<and> partL \<le> sheetL);
          fitsRotated = (partL \<le> sheetW \<and> partW \<le> sheetL)
      in fitsNormal \<or> fitsRotated)"

text \<open>Expanding the parts: \<open>qty\<close> copies of each, the id being the running length.\<close>

fun pushCopies :: "Part \<Rightarrow> nat \<Rightarrow> Rectangle list \<Rightarrow> Rectangle list" where
  "pushCopies p 0 rects = rects"
| "pushCopies p (Suc n) rects =
     pushCopies p n
       (rects @ [newRectangle (p_w p) (p_l p) (length rects) (p_name p) (p_category p)
                   (p_sourceItemId p) (p_sourceItemName p)])"

fun expandParts :: "Part list \<Rightarrow> Rectangle list \<Rightarrow> Rectangle list" where
  "expandParts [] rects = rects"
| "expandParts (p # ps) rects = expandParts ps (pushCopies p (p_qty p) rects)"

text \<open>
  The comparator given to \<open>rects.sort\<close>: larger area first, then the longer longest side.
  \<open>Array.prototype.sort\<close> is stable and the comparator is a total preorder, so the sorted
  array is determined; a stable insertion sort computes it.
\<close>

definition compareRects :: "Rectangle \<Rightarrow> Rectangle \<Rightarrow> rat" where
  "compareRects a b =
     (let areaA = r_w a * r_h a;
          areaB = r_w b * r_h b
      in if areaB \<noteq> areaA then areaB - areaA
         else max (r_w b) (r_h b) - max (r_w a) (r_h a))"

fun insertRect :: "Rectangle \<Rightarrow> Rectangle list \<Rightarrow> Rectangle list" where
  "insertRect a [] = [a]"
| "insertRect a (b # bs) =
     (if compareRects a b \<le> 0 then a # b # bs else b # insertRect a bs)"

definition sortRects :: "Rectangle list \<Rightarrow> Rectangle list" where
  "sortRects rects = foldr insertRect rects []"

text \<open>
  The loop over the existing sheets: the first sheet with a position takes the piece.
  \<open>None\<close> is \<open>placed = false\<close> after the loop.
\<close>

fun placeOnExisting :: "Sheet list \<Rightarrow> Rectangle \<Rightarrow> rat \<Rightarrow> Sheet list option" where
  "placeOnExisting [] rect kerf = None"
| "placeOnExisting (s # ss) rect kerf =
     (case findBestPosition s (r_w rect) (r_h rect) kerf of
        Some pos \<Rightarrow> Some (addPlacement s rect (pos_x pos) (pos_y pos) (pos_rotated pos) # ss)
      | None \<Rightarrow> map_option ((#) s) (placeOnExisting ss rect kerf))"

text \<open>One iteration of the placing loop, on the state \<open>(sheets, unplaced)\<close>.\<close>

definition placeRect ::
  "rat \<Rightarrow> rat \<Rightarrow> rat \<Rightarrow> Sheet list \<times> Rectangle list \<Rightarrow> Rectangle
     \<Rightarrow> Sheet list \<times> Rectangle list" where
  "placeRect sheetW sheetL kerf st rect =
     (case st of (shs, unpl) \<Rightarrow>
        if \<not> partFits (r_w rect) (r_h rect) sheetW sheetL then (shs, unpl @ [rect])
        else
          (case placeOnExisting shs rect kerf of
             Some shs' \<Rightarrow> (shs', unpl)
           | None \<Rightarrow>
               (let fresh = newSheet sheetW sheetL (length shs + 1) kerf
                in case findBestPosition fresh (r_w rect) (r_h rect) kerf of
                     Some pos2 \<Rightarrow>
                       (shs @ [addPlacement fresh rect (pos_x pos2) (pos_y pos2)
                                 (pos_rotated pos2)], unpl)
                   | None \<Rightarrow> (shs, unpl))))"

definition nestParts :: "Part list \<Rightarrow> rat \<Rightarrow> rat \<Rightarrow> rat \<Rightarrow> NestResult" where
  "nestParts parts sheetW sheetL kerf =
     (let rects = sortRects (expandParts parts []);
          st = foldl (placeRect sheetW sheetL kerf) ([], []) rects
      in \<lparr> sheets = fst st, unplaced = snd st \<rparr>)"

section \<open>Oversized panel splitting (estimate.js)\<close>

subsection \<open>Data\<close>

text \<open>
  A quotient computed by the source may be NaN (\<open>0 / 0\<close>); the strip size of a layout is
  therefore a number or NaN.
\<close>

datatype jsnum = Num rat | NaN

text \<open>The object \<open>{ stripSize, keepDim, stripCount }\<close> returned by \<open>calcStripLayout\<close>.\<close>

record StripLayout =
  stripSize :: jsnum
  keepDim :: rat
  stripCount :: int

text \<open>The object \<open>{ cols, rows, total, pieceW, pieceL }\<close> returned by \<open>calcGridLayout\<close>.\<close>

record GridLayout =
  cols :: int
  rows :: int
  total :: int
  pieceW :: rat
  pieceL :: rat

text \<open>An entry \<open>{ w, l, suffix }\<close> of the \<open>pieces\<close> array.\<close>

record Piece =
  pc_w :: jsnum
  pc_l :: jsnum
  suffix :: string

text \<open>
  The object returned by \<open>fitOrSplit\<close>; \<open>fs_stripCount\<close> is its \<open>stripCount\<close> property,
  \<open>warning\<close> is \<open>None\<close> for \<open>null\<close>, and \<open>noSplit\<close> is \<open>False\<close> where the source leaves
  the property out.
\<close>

record FitResult =
  fits :: bool
  pieces :: "Piece list"
  fs_stripCount :: int
  warning :: "string option"
  noSplit :: bool

datatype SplitAxis = Width | Length

subsection \<open>Numbers as text\<close>

text \<open>
  String concatenation with an integer, as in \<open>' [' + idx + '/' + total + ']'\<close>: the
  decimal digits, which is what JavaScript prints for an integer below \<open>10^21\<close>.
\<close>

fun showNat :: "nat \<Rightarrow> string" where
  "showNat n =
     (if n < 10 then [char_of (48 + n)]
      else showNat (n div 10) @ [char_of (48 + n mod 10)])"

declare showNat.simps [simp del]

definition showInt :: "int \<Rightarrow> string" where
  "showInt i = (if i < 0 then CHR ''-'' # showNat (nat (- i)) else showNat (nat i))"

subsection \<open>Strip layout\<close>

definition partFitsStock :: "rat \<Rightarrow> rat \<Rightarrow> rat \<Rightarrow> rat \<Rightarrow> bool" where
  "partFitsStock partW partL stockW stockL =
     ((partW \<le> stockW \<and> partL \<le> stockL) \<or> (partL \<le> stockW \<and> partW \<le> stockL))"

text \<open>
  The test of the refinement loops, for a count \<open>n\<close>:
  \<open>size = (len - (n - 1) * gap) / n; size <= maxDim && size > 0.5\<close>.
  For \<open>n = 0\<close> the quotient is an infinity or NaN, and each of them fails the test.
\<close>

definition sizeFor :: "rat \<Rightarrow> rat \<Rightarrow> int \<Rightarrow> rat" where
  "sizeFor len gap n = (len - (of_int n - 1) * gap) / of_int n"

definition sizeOk :: "rat \<Rightarrow> rat \<Rightarrow> rat \<Rightarrow> int \<Rightarrow> bool" where
  "sizeOk len maxDim gap n =
     (n \<noteq> 0 \<and> sizeFor len gap n \<le> maxDim \<and> sizeFor len gap n > 1 / 2)"

text \<open>
  \<open>for (tries = 0; tries < 10; tries++) { ...; if (ok) break; count++; }\<close> with the
  number of remaining attempts as the recursion argument.
\<close>

fun refineCount :: "rat \<Rightarrow> rat \<Rightarrow> rat \<Rightarrow> nat \<Rightarrow> int \<Rightarrow> int" where
  "refineCount len maxDim gap 0 n = n"
| "refineCount len maxDim gap (Suc tries) n =
     (if sizeOk len maxDim gap n then n else refineCount len maxDim gap tries (n + 1))"

text \<open>The maximal strip size, given which stock sides the kept dimension fits.\<close>

definition maxStripDim :: "rat \<Rightarrow> rat \<Rightarrow> rat \<Rightarrow> rat" where
  "maxStripDim keepDim' stockW stockL =
     (let keepFitsInW = (keepDim' \<le> stockW);
          keepFitsInL = (keepDim' \<le> stockL)
      in if keepFitsInL \<and> keepFitsInW then max stockW stockL
         else if keepFitsInL then stockW
         else stockL)"

text \<open>
  After the loop the strip size is computed once more and validated. With a strip count
  of \<open>0\<close> the quotient is NaN when the numerator is \<open>0\<close> (both comparisons are false and
  the layout is returned) and an infinity otherwise (one comparison is true: \<open>null\<close>).
\<close>

definition calcStripLayout ::
  "rat \<Rightarrow> rat \<Rightarrow> rat \<Rightarrow> rat \<Rightarrow> rat \<Rightarrow> StripLayout option" where
  "calcStripLayout splitDim keepDim' stockW stockL seamGap =
     (let keepFitsInW = (keepDim' \<le> stockW);
          keepFitsInL = (keepDim' \<le> stockL)
      in if \<not> keepFitsInW \<and> \<not> keepFitsInL then None
         else
           (let m = maxStripDim keepDim' stockW stockL
            in if m \<le> 0 then None
               else
                 (let n = refineCount splitDim m seamGap 10 \<lceil>splitDim / m\<rceil>;
                      totalGap = (of_int n - 1) * seamGap
                  in if n = 0
                     then (if splitDim - totalGap = 0
                           then Some \<lparr> stripSize = NaN, keepDim = keepDim', stripCount = n \<rparr>
                           else None)
                     else
                       (let size = (splitDim - totalGap) / of_int n
                        in if size \<le> 0 \<or> size > m then None
                           else Some \<lparr> stripSize = Num size, keepDim = keepDim',
                                       stripCount = n \<rparr>))))"

subsection \<open>Grid layout\<close>

text \<open>
  One stock orientation \<open>(sw, sl)\<close> of \<open>calcGridLayout\<close>: the candidate it offers, if any.
  The final test demands \<open>0.5 < pieceW <= sw\<close> and \<open>0.5 < pieceL <= sl\<close>, which no value
  passes when a stock side is \<open>0\<close> or a count is \<open>0\<close> (the quotients are then infinite or
  NaN); these cases are answered first, so no division below is by zero.
\<close>

definition gridCandidate :: "rat \<Rightarrow> rat \<Rightarrow> rat \<Rightarrow> rat \<Rightarrow> rat \<Rightarrow> GridLayout option" where
  "gridCandidate partW partL sw sl seamGap =
     (if sw = 0 \<or> sl = 0 then None
      else
        (let c = refineCount partW sw seamGap 10 \<lceil>partW / sw\<rceil>;
             r = refineCount partL sl seamGap 10 \<lceil>partL / sl\<rceil>
         in if c = 0 \<or> r = 0 then None
            else
              (let pw = (partW - (of_int c - 1) * seamGap) / of_int c;
                   pl = (partL - (of_int r - 1) * seamGap) / of_int r
               in if pw > 1 / 2 \<and> pl > 1 / 2 \<and> pw \<le> sw \<and> pl \<le> sl
                  then Some \<lparr> cols = c, rows = r, total = c * r, pieceW = pw, pieceL = pl \<rparr>
                  else None)))"

text \<open>\<open>if (!best || total < best.total) best = candidate\<close>.\<close>

definition betterGrid :: "GridLayout option \<Rightarrow> GridLayout option \<Rightarrow> GridLayout option" where
  "betterGrid best cand =
     (case cand of
        None \<Rightarrow> best
      | Some g \<Rightarrow>
          (case best of
             None \<Rightarrow> Some g
           | Some b \<Rightarrow> if total g < total b then Some g else Some b))"

definition calcGridLayout :: "rat \<Rightarrow> rat \<Rightarrow> rat \<Rightarrow> rat \<Rightarrow> rat \<Rightarrow> GridLayout option" where
  "calcGridLayout partW partL stockW stockL seamGap =
     foldl (\<lambda>best (sw, sl). betterGrid best (gridCandidate partW partL sw sl seamGap))
       None [(stockW, stockL), (stockL, stockW)]"

subsection \<open>Fit or split\<close>

text \<open>Choosing between the two strip options: fewer strips, width first on a tie.\<close>

definition chooseStrip ::
  "StripLayout option \<Rightarrow> StripLayout option \<Rightarrow> (StripLayout \<times> SplitAxis) option" where
  "chooseStrip optA optB =
     (case (optA, optB) of
        (Some a, Some b) \<Rightarrow>
          if stripCount a \<le> stripCount b then Some (a, Width) else Some (b, Length)
      | (Some a, None) \<Rightarrow> Some (a, Width)
      | (None, Some b) \<Rightarrow> Some (b, Length)
      | (None, None) \<Rightarrow> None)"

text \<open>The result built from the chosen strip layout.\<close>

definition stripPiece :: "StripLayout \<Rightarrow> SplitAxis \<Rightarrow> nat \<Rightarrow> Piece" where
  "stripPiece best axis i =
     \<lparr> pc_w = (case axis of Width \<Rightarrow> stripSize best | Length \<Rightarrow> Num (keepDim best)),
       pc_l = (case axis of Width \<Rightarrow> Num (keepDim best) | Length \<Rightarrow> stripSize best),
       suffix = '' ['' @ showNat (i + 1) @ ''/'' @ showInt (stripCount best) @ '']'' \<rparr>"

definition stripResult :: "StripLayout \<Rightarrow> SplitAxis \<Rightarrow> FitResult" where
  "stripResult best axis =
     \<lparr> fits = False,
       pieces = map (stripPiece best axis) [0..<nat (stripCount best)],
       fs_stripCount = stripCount best,
       warning = Some (''will be split into '' @ showInt (stripCount best) @ '' pieces''),
       noSplit = False \<rparr>"

text \<open>The result built from a grid; \<open>idx\<close> counts the cells row by row from 1.\<close>

definition gridPiece :: "GridLayout \<Rightarrow> nat \<Rightarrow> Piece" where
  "gridPiece g idx =
     \<lparr> pc_w = Num (pieceW g), pc_l = Num (pieceL g),
       suffix = '' ['' @ showNat idx @ ''/'' @ showInt (total g) @ '']'' \<rparr>"

definition gridResult :: "GridLayout \<Rightarrow> FitResult" where
  "gridResult g =
     \<lparr> fits = False,
       pieces = concat (map (\<lambda>r. map (\<lambda>c. gridPiece g (r * nat (cols g) + c + 1))
                                  [0..<nat (cols g)]) [0..<nat (rows g)]),
       fs_stripCount = total g,
       warning = Some (''will be split into '' @ showInt (cols g) @ [CHR 0xD7] @
                       showInt (rows g) @ '' grid ('' @ showInt (total g) @ '' pieces)''),
       noSplit = False \<rparr>"

definition wholePiece :: "rat \<Rightarrow> rat \<Rightarrow> Piece" where
  "wholePiece partW partL = \<lparr> pc_w = Num partW, pc_l = Num partL, suffix = [] \<rparr>"

text \<open>\<open>seamGap = seamGap || 0\<close> is the identity on \<open>rat\<close>.\<close>

definition fitOrSplit :: "rat \<Rightarrow> rat \<Rightarrow> rat \<Rightarrow> rat \<Rightarrow> rat \<Rightarrow> bool \<Rightarrow> FitResult" where
  "fitOrSplit partW partL stockW stockL seamGap canSplit =
     (if partFitsStock partW partL stockW stockL
      then \<lparr> fits = True, pieces = [wholePiece partW partL], fs_stripCount = 1,
             warning = None, noSplit = False \<rparr>
      else if \<not> canSplit
      then \<lparr> fits = False, pieces = [wholePiece partW partL], fs_stripCount = 1,
             warning = Some ''exceeds stock (seams not allowed)'', noSplit = True \<rparr>
      else
        (let optA = calcStripLayout partW partL stockW stockL seamGap;
             optB = calcStripLayout partL partW stockW stockL seamGap
         in case chooseStrip optA optB of
              Some (best, splitAxis) \<Rightarrow> stripResult best splitAxis
            | None \<Rightarrow>
                (case calcGridLayout partW partL stockW stockL seamGap of
                   Some grid \<Rightarrow> gridResult grid
                 | None \<Rightarrow>
                     \<lparr> fits = False, pieces = [wholePiece partW partL], fs_stripCount = 1,
                       warning = Some ''cannot be split to fit stock'', noSplit = True \<rparr>)))"

section \<open>Sheet nesting with rounded arithmetic\<close>

text \<open>
  The program computes on IEEE doubles: the result of every sum, difference and product
  is rounded. The definitions of this section are the nesting code once more, with each
  arithmetic result passed through a rounding function \<open>rnd\<close>, in the order in which the
  source evaluates it. With \<open>rnd = fl64\<close> they are the program; with the identity they
  are the exact definitions above. Comparisons and \<open>min\<close>, \<open>max\<close> do not round.
\<close>

subsection \<open>Rounding to a double\<close>

text \<open>\<open>log2floor n\<close> is the position of the highest bit of \<open>n\<close>.\<close>

fun log2floor :: "nat \<Rightarrow> nat" where
  "log2floor n = (if n < 2 then 0 else Suc (log2floor (n div 2)))"

declare log2floor.simps [simp del]

text \<open>The binary exponent of a positive rational: \<open>2 ^ expo x <= x < 2 ^ (expo x + 1)\<close>.\<close>

definition expo :: "rat \<Rightarrow> int" where
  "expo x =
     (if 1 \<le> x then int (log2floor (nat \<lfloor>x\<rfloor>))
      else - int (Suc (log2floor (nat \<lceil>1 / x\<rceil> - 1))))"

definition pow2 :: "int \<Rightarrow> rat" where
  "pow2 e = (if 0 \<le> e then 2 ^ nat e else 1 / 2 ^ nat (- e))"

text \<open>Rounding to the nearest integer, a tie going to the even one.\<close>

definition roundEven :: "rat \<Rightarrow> int" where
  "roundEven m =
     (let n = \<lfloor>m\<rfloor>;
          d = m - of_int n
      in if d < 1 / 2 then n
         else if 1 / 2 < d then n + 1
         else if even n then n else n + 1)"

text \<open>
  The double nearest to \<open>x\<close>: a significand of 53 bits, ties to even. The exponent is
  not bounded, so overflow to an infinity and the reduced precision of subnormal numbers
  (below \<open>2 ^ -1022\<close>) are left out; lengths on a sheet are far from both.
\<close>

definition fl64 :: "rat \<Rightarrow> rat" where
  "fl64 x =
     (if x = 0 then 0
      else
        (let a = \<bar>x\<bar>;
             e = expo a - 52;
             m = roundEven (a / pow2 e)
         in sgn x * of_int m * pow2 e))"

subsection \<open>Free rectangle bookkeeping\<close>

definition containedInR :: "(rat \<Rightarrow> rat) \<Rightarrow> FreeRect \<Rightarrow> FreeRect \<Rightarrow> bool" where
  "containedInR rnd r o' =
     (f_x r \<ge> f_x o' \<and> f_y r \<ge> f_y o' \<and>
      rnd (f_x r + f_w r) \<le> rnd (f_x o' + f_w o') \<and>
      rnd (f_y r + f_h r) \<le> rnd (f_y o' + f_h o'))"

definition containedAtR :: "(rat \<Rightarrow> rat) \<Rightarrow> FreeRect list \<Rightarrow> nat \<Rightarrow> bool" where
  "containedAtR rnd rects i =
     (\<exists>j \<in> set [0..<length rects]. j \<noteq> i \<and> containedInR rnd (rects ! i) (rects ! j))"

definition keepAtR :: "(rat \<Rightarrow> rat) \<Rightarrow> FreeRect list \<Rightarrow> nat \<Rightarrow> bool" where
  "keepAtR rnd rects i =
     (\<not> containedAtR rnd rects i \<and> f_w (rects ! i) > 0 \<and> f_h (rects ! i) > 0)"

definition removeDuplicateRectsR :: "(rat \<Rightarrow> rat) \<Rightarrow> FreeRect list \<Rightarrow> FreeRect list" where
  "removeDuplicateRectsR rnd rects =
     map (\<lambda>i. rects ! i) (filter (keepAtR rnd rects) [0..<length rects])"

definition splitFreeR ::
  "(rat \<Rightarrow> rat) \<Rightarrow> rat \<Rightarrow> rat \<Rightarrow> rat \<Rightarrow> rat \<Rightarrow> FreeRect \<Rightarrow> FreeRect list" where
  "splitFreeR rnd occX occY occW occH f =
     (if occX \<ge> rnd (f_x f + f_w f) \<or> rnd (occX + occW) \<le> f_x f \<or>
         occY \<ge> rnd (f_y f + f_h f) \<or> rnd (occY + occH) \<le> f_y f
      then [f]
      else
        (if occX > f_x f
         then [\<lparr> f_x = f_x f, f_y = f_y f, f_w = rnd (occX - f_x f), f_h = f_h f \<rparr>]
         else []) @
        (if rnd (occX + occW) < rnd (f_x f + f_w f)
         then [\<lparr> f_x = rnd (occX + occW), f_y = f_y f,
                 f_w = rnd (rnd (f_x f + f_w f) - rnd (occX + occW)), f_h = f_h f \<rparr>]
         else []) @
        (if occY > f_y f
         then [\<lparr> f_x = f_x f, f_y = f_y f, f_w = f_w f, f_h = rnd (occY - f_y f) \<rparr>]
         else []) @
        (if rnd (occY + occH) < rnd (f_y f + f_h f)
         then [\<lparr> f_x = f_x f, f_y = rnd (occY + occH), f_w = f_w f,
                 f_h = rnd (rnd (f_y f + f_h f) - rnd (occY + occH)) \<rparr>]
         else []))"

definition updateFreeRectsR :: "(rat \<Rightarrow> rat) \<Rightarrow> Sheet \<Rightarrow> Placement \<Rightarrow> Sheet" where
  "updateFreeRectsR rnd sheet placement =
     (let kerf = s_kerf sheet;
          occX = pl_x placement;
          occY = pl_y placement;
          occW = rnd (pl_w placement + kerf);
          occH = rnd (pl_h placement + kerf);
          newFree = concat (map (splitFreeR rnd occX occY occW occH) (freeRects sheet))
      in sheet \<lparr> freeRects := removeDuplicateRectsR rnd newFree \<rparr>)"

definition addPlacementR ::
  "(rat \<Rightarrow> rat) \<Rightarrow> Sheet \<Rightarrow> Rectangle \<Rightarrow> rat \<Rightarrow> rat \<Rightarrow> bool \<Rightarrow> Sheet" where
  "addPlacementR rnd sheet rect x y rotated =
     (let p = mkPlacement rect x y rotated
      in updateFreeRectsR rnd (sheet \<lparr> placements := placements sheet @ [p] \<rparr>) p)"

subsection \<open>Best short side fit\<close>

definition tryFreeRectR ::
  "(rat \<Rightarrow> rat) \<Rightarrow> rat \<Rightarrow> rat \<Rightarrow> (Position \<times> rat) option \<Rightarrow> FreeRect
     \<Rightarrow> (Position \<times> rat) option" where
  "tryFreeRectR rnd rectW rectH acc f =
     (let score = min (rnd (f_w f - rectW)) (rnd (f_h f - rectH));
          acc1 = (if rectW \<le> f_w f \<and> rectH \<le> f_h f \<and> scoreBelow score acc
                  then Some (\<lparr> pos_x = f_x f, pos_y = f_y f, pos_rotated = False \<rparr>, score)
                  else acc);
          score2 = min (rnd (f_w f - rectH)) (rnd (f_h f - rectW))
      in (if rectH \<le> f_w f \<and> rectW \<le> f_h f \<and> scoreBelow score2 acc1
          then Some (\<lparr> pos_x = f_x f, pos_y = f_y f, pos_rotated = True \<rparr>, score2)
          else acc1))"

definition findBestPositionR ::
  "(rat \<Rightarrow> rat) \<Rightarrow> Sheet \<Rightarrow> rat \<Rightarrow> rat \<Rightarrow> rat \<Rightarrow> Position option" where
  "findBestPositionR rnd sheet rectW rectH kerf =
     map_option fst (foldl (tryFreeRectR rnd rectW rectH) None (freeRects sheet))"

subsection \<open>The nesting algorithm\<close>

definition compareRectsR :: "(rat \<Rightarrow> rat) \<Rightarrow> Rectangle \<Rightarrow> Rectangle \<Rightarrow> rat" where
  "compareRectsR rnd a b =
     (let areaA = rnd (r_w a * r_h a);
          areaB = rnd (r_w b * r_h b)
      in if areaB \<noteq> areaA then rnd (areaB - areaA)
         else rnd (max (r_w b) (r_h b) - max (r_w a) (r_h a)))"

fun insertRectR :: "(rat \<Rightarrow> rat) \<Rightarrow> Rectangle \<Rightarrow> Rectangle list \<Rightarrow> Rectangle list" where
  "insertRectR rnd a [] = [a]"
| "insertRectR rnd a (b # bs) =
     (if compareRectsR rnd a b \<le> 0 then a # b # bs else b # insertRectR rnd a bs)"

definition sortRectsR :: "(rat \<Rightarrow> rat) \<Rightarrow> Rectangle list \<Rightarrow> Rectangle list" where
  "sortRectsR rnd rects = foldr (insertRectR rnd) rects []"

fun placeOnExistingR ::
  "(rat \<Rightarrow> rat) \<Rightarrow> Sheet list \<Rightarrow> Rectangle \<Rightarrow> rat \<Rightarrow> Sheet list option" where
  "placeOnExistingR rnd [] rect kerf = None"
| "placeOnExistingR rnd (s # ss) rect kerf =
     (case findBestPositionR rnd s (r_w rect) (r_h rect) kerf of
        Some pos \<Rightarrow>
          Some (addPlacementR rnd s rect (pos_x pos) (pos_y pos) (pos_rotated pos) # ss)
      | None \<Rightarrow> map_option ((#) s) (placeOnExistingR rnd ss rect kerf))"

definition placeRectR ::
  "(rat \<Rightarrow> rat) \<Rightarrow> rat \<Rightarrow> rat \<Rightarrow> rat \<Rightarrow> Sheet list \<times> Rectangle list \<Rightarrow> Rectangle
     \<Rightarrow> Sheet list \<times> Rectangle list" where
  "placeRectR rnd sheetW sheetL kerf st rect =
     (case st of (shs, unpl) \<Rightarrow>
        if \<not> partFits (r_w rect) (r_h rect) sheetW sheetL then (shs, unpl @ [rect])
        else
          (case placeOnExistingR rnd shs rect kerf of
             Some shs' \<Rightarrow> (shs', unpl)
           | None \<Rightarrow>
               (let fresh = newSheet sheetW sheetL (length shs + 1) kerf
                in case findBestPositionR rnd fresh (r_w rect) (r_h rect) kerf of
                     Some pos2 \<Rightarrow>
                       (shs @ [addPlacementR rnd fresh rect (pos_x pos2) (pos_y pos2)
                                 (pos_rotated pos2)], unpl)
                   | None \<Rightarrow> (shs, unpl))))"

definition nestPartsR ::
  "(rat \<Rightarrow> rat) \<Rightarrow> Part list \<Rightarrow> rat \<Rightarrow> rat \<Rightarrow> rat \<Rightarrow> NestResult" where
  "nestPartsR rnd parts sheetW sheetL kerf =
     (let rects = sortRectsR rnd (expandParts parts []);
          st = foldl (placeRectR rnd sheetW sheetL kerf) ([], []) rects
      in \<lparr> sheets = fst st, unplaced = snd st \<rparr>)"

section \<open>Notions used by the properties\<close>

text \<open>Two rectangles overlap when their interiors meet.\<close>

definition overlaps :: "FreeRect \<Rightarrow> FreeRect \<Rightarrow> bool" where
  "overlaps a b =
     (f_x a < f_x b + f_w b \<and> f_x b < f_x a + f_w a \<and>
      f_y a < f_y b + f_h b \<and> f_y b < f_y a + f_h a)"

text \<open>A rectangle and a part with no tags, for concrete runs.\<close>

definition plainRect :: "rat \<Rightarrow> rat \<Rightarrow> nat \<Rightarrow> Rectangle" where
  "plainRect w h i = newRectangle w h i ''part'' None None None"

definition plainPart :: "rat \<Rightarrow> rat \<Rightarrow> nat \<Rightarrow> Part" where
  "plainPart w l q =
     \<lparr> p_name = ''part'', p_qty = q, p_w = w, p_l = l, p_category = None,
       p_sourceItemId = None, p_sourceItemName = None \<rparr>"

text \<open>A list of free rectangles in which the first and the last are the same rectangle.\<close>

definition twiceListed :: "FreeRect list" where
  "twiceListed =
     [\<lparr> f_x = 0, f_y = 0, f_w = 10, f_h = 20 \<rparr>,
      \<lparr> f_x = 5, f_y = 5, f_w = 40, f_h = 1 \<rparr>,
      \<lparr> f_x = 0, f_y = 0, f_w = 10, f_h = 20 \<rparr>]"

text \<open>A fresh 48 by 96 sheet with kerf 1/8 and a 20 by 30 piece in its corner.\<close>

definition cornerSheet :: Sheet where
  "cornerSheet = newSheet 48 96 1 (1 / 8)"

definition cornerPlacement :: Placement where
  "cornerPlacement = mkPlacement (plainRect 20 30 0) 0 0 False"

text \<open>A 20 by 96 piece in the same corner: it leaves a single free rectangle.\<close>

definition stripPlacement :: Placement where
  "stripPlacement = mkPlacement (plainRect 20 96 0) 0 0 False"

text \<open>Bounds of a sheet, for placements and for free rectangles.\<close>

definition inBounds :: "rat \<Rightarrow> rat \<Rightarrow> Placement \<Rightarrow> bool" where
  "inBounds sheetW sheetL p =
     (0 \<le> pl_x p \<and> 0 \<le> pl_y p \<and> pl_x p + pl_w p \<le> sheetW \<and> pl_y p + pl_h p \<le> sheetL)"

definition freeInBounds :: "rat \<Rightarrow> rat \<Rightarrow> FreeRect \<Rightarrow> bool" where
  "freeInBounds sheetW sheetL f =
     (0 \<le> f_x f \<and> 0 \<le> f_y f \<and> f_x f + f_w f \<le> sheetW \<and> f_y f + f_h f \<le> sheetL)"

definition sheetInBounds :: "rat \<Rightarrow> rat \<Rightarrow> Sheet \<Rightarrow> bool" where
  "sheetInBounds sheetW sheetL s =
     ((\<forall>f \<in> set (freeRects s). freeInBounds sheetW sheetL f) \<and>
      (\<forall>p \<in> set (placements s). inBounds sheetW sheetL p))"

definition fitsInto :: "rat \<Rightarrow> rat \<Rightarrow> Position \<Rightarrow> FreeRect \<Rightarrow> bool" where
  "fitsInto rectW rectH pos f =
     (pos_x pos = f_x f \<and> pos_y pos = f_y f \<and>
      (if pos_rotated pos then rectH \<le> f_w f \<and> rectW \<le> f_h f
       else rectW \<le> f_w f \<and> rectH \<le> f_h f))"

text \<open>The rectangle a placement occupies, widened by the kerf on its trailing edges.\<close>

definition kerfRect :: "rat \<Rightarrow> Placement \<Rightarrow> FreeRect" where
  "kerfRect kerf p =
     \<lparr> f_x = pl_x p, f_y = pl_y p, f_w = pl_w p + kerf, f_h = pl_h p + kerf \<rparr>"

text \<open>A 48 by 96 sheet (kerf 1/8) that a piece of the same size fills completely.\<close>

definition fullSheet :: Sheet where
  "fullSheet = addPlacement (newSheet 48 96 1 (1 / 8)) (plainRect 48 96 0) 0 0 False"

text \<open>Three parts for a 48 by 96 sheet with kerf 1/8.\<close>

definition threeParts :: "Part list" where
  "threeParts = [plainPart 24 61 1, plainPart 18 63 1, plainPart (193 / 8) 12 1]"

text \<open>
  The refinement loop does not converge from the count \<open>n0\<close>: each of its ten attempts,
  at the counts \<open>n0\<close> to \<open>n0 + 9\<close>, fails the test.
\<close>

definition neverConverges :: "rat \<Rightarrow> rat \<Rightarrow> rat \<Rightarrow> int \<Rightarrow> bool" where
  "neverConverges len maxDim gap n0 =
     (\<forall>t \<in> set [0..<10]. \<not> sizeOk len maxDim gap (n0 + int t))"

text \<open>
  Clearance actually kept by the packer: a piece placed later (its bare rectangle,
  \<open>kerfRect 0\<close>) stays clear of the widened rectangle of every piece placed before it,
  and the free rectangles stay clear of all widened rectangles.
\<close>

definition laterClear :: "rat \<Rightarrow> Placement list \<Rightarrow> bool" where
  "laterClear kerf ps =
     (\<forall>j \<in> set [0..<length ps]. \<forall>i \<in> set [0..<j].
        \<not> overlaps (kerfRect 0 (ps ! j)) (kerfRect kerf (ps ! i)))"

definition sheetClear :: "rat \<Rightarrow> Sheet \<Rightarrow> bool" where
  "sheetClear kerf s =
     (s_kerf s = kerf \<and>
      (\<forall>f \<in> set (freeRects s). \<forall>q \<in> set (placements s). \<not> overlaps f (kerfRect kerf q)) \<and>
      laterClear kerf (placements s))"

text \<open>
  Rounding that adds at most the relative error \<open>u\<close> to a number that is not negative;
  and the bounds a sheet keeps under such rounding: after \<open>n\<close> placements its free
  rectangles end within the sheet sides enlarged by the factor \<open>(1 + u) ^ (2 * n)\<close>.
\<close>

definition roundsWithin :: "(rat \<Rightarrow> rat) \<Rightarrow> rat \<Rightarrow> bool" where
  "roundsWithin rnd u = (0 \<le> u \<and> (\<forall>x. 0 \<le> x \<longrightarrow> rnd x \<le> x * (1 + u)))"

definition freeWithin :: "rat \<Rightarrow> rat \<Rightarrow> FreeRect \<Rightarrow> bool" where
  "freeWithin bw bl f =
     (0 \<le> f_x f \<and> 0 \<le> f_y f \<and> 0 \<le> f_w f \<and> 0 \<le> f_h f \<and>
      f_x f + f_w f \<le> bw \<and> f_y f + f_h f \<le> bl)"

definition placedWithin :: "rat \<Rightarrow> rat \<Rightarrow> rat \<Rightarrow> Placement list \<Rightarrow> bool" where
  "placedWithin sheetW sheetL u ps =
     (\<forall>i \<in> set [0..<length ps].
        0 \<le> pl_x (ps ! i) \<and> 0 \<le> pl_y (ps ! i) \<and>
        pl_x (ps ! i) + pl_w (ps ! i) \<le> sheetW * (1 + u) ^ (2 * i) \<and>
        pl_y (ps ! i) + pl_h (ps ! i) \<le> sheetL * (1 + u) ^ (2 * i))"

definition sheetWithin :: "rat \<Rightarrow> rat \<Rightarrow> rat \<Rightarrow> Sheet \<Rightarrow> bool" where
  "sheetWithin sheetW sheetL u s =
     ((\<forall>f \<in> set (freeRects s).
         freeWithin (sheetW * (1 + u) ^ (2 * length (placements s)))
           (sheetL * (1 + u) ^ (2 * length (placements s))) f) \<and>
      placedWithin sheetW sheetL u (placements s))"

text \<open>
  Two parts for a sheet 48 by 96.3 with kerf 0.125. The decimal literals \<open>15.9\<close>,
  \<open>80.275\<close> and \<open>96.3\<close> of a JavaScript program denote the nearest doubles.
\<close>

definition twoParts :: "Part list" where
  "twoParts = [plainPart 48 (fl64 (159 / 10)) 1, plainPart 1 (fl64 (3211 / 40)) 1]"

definition tallSheet :: rat where
  "tallSheet = fl64 (963 / 10)"

section \<open>Pruning of free rectangles\<close>

lemma containedIn_refl: "containedIn r r"
  by (simp add: containedIn_def)

lemma removeDuplicateRects_nth:
  assumes "r \<in> set (removeDuplicateRects rects)"
  obtains k where "k < length rects" "rects ! k = r" "keepAt rects k"
  using assms by (auto simp: removeDuplicateRects_def)

lemma removeDuplicateRects_subset: "set (removeDuplicateRects rects) \<subseteq> set rects"
  by (auto simp: removeDuplicateRects_def)

lemma removeDuplicateRects_positive:
  "r \<in> set (removeDuplicateRects rects) \<Longrightarrow> 0 < f_w r \<and> 0 < f_h r"
  by (auto simp: removeDuplicateRects_def keepAt_def)

text \<open>
  C9. When the list given to \<open>removeDuplicateRects\<close> holds the same rectangle (same x, y, w
  and h) at two different indices, each copy is judged contained in the other, and no
  rectangle equal to them is in the output. A list of just these two copies is pruned to
  the empty list, so the output can cover strictly less than the input did.
\<close>

theorem removeDuplicateRects_drops_identical:
  assumes "i < length rects" and "j < length rects" and "i \<noteq> j"
    and "rects ! i = rects ! j"
  shows "rects ! i \<notin> set (removeDuplicateRects rects) \<and>
         removeDuplicateRects [rects ! i, rects ! j] = []"
proof
  show "rects ! i \<notin> set (removeDuplicateRects rects)"
  proof
    assume "rects ! i \<in> set (removeDuplicateRects rects)"
    then obtain k where k: "k < length rects" "rects ! k = rects ! i" "keepAt rects k"
      by (rule removeDuplicateRects_nth)
    define m where "m = (if k = i then j else i)"
    have "m < length rects" "m \<noteq> k" "rects ! m = rects ! k"
      using assms k by (auto simp: m_def)
    then have "containedAt rects k"
      unfolding containedAt_def using containedIn_refl [of "rects ! k"] by auto
    with k(3) show False by (simp add: keepAt_def)
  qed
next
  show "removeDuplicateRects [rects ! i, rects ! j] = []"
    using assms(4)
    by (simp add: removeDuplicateRects_def keepAt_def containedAt_def containedIn_def upt_rec)
qed

theorem removeDuplicateRects_drops_identical_witness:
  "0 < length twiceListed \<and> 2 < length twiceListed \<and> (0::nat) \<noteq> 2 \<and>
   twiceListed ! 0 = twiceListed ! 2 \<and>
   0 < f_w (twiceListed ! 0) \<and> 0 < f_h (twiceListed ! 0) \<and>
   twiceListed ! 0 \<notin> set (removeDuplicateRects twiceListed) \<and>
   removeDuplicateRects [twiceListed ! 0, twiceListed ! 2] = []"
proof -
  have h: "0 < length twiceListed" "2 < length twiceListed" "(0::nat) \<noteq> 2"
    "twiceListed ! 0 = twiceListed ! 2"
    by (simp_all add: twiceListed_def)
  have p: "0 < f_w (twiceListed ! 0)" "0 < f_h (twiceListed ! 0)"
    by (simp_all add: twiceListed_def)
  show ?thesis
    using h p removeDuplicateRects_drops_identical [OF h] by simp
qed

lemma removeDuplicateRects_not_contained:
  assumes "a < length (removeDuplicateRects rects)"
    and "b < length (removeDuplicateRects rects)" and "a \<noteq> b"
  shows "\<not> containedIn (removeDuplicateRects rects ! a) (removeDuplicateRects rects ! b)"
proof -
  define idx where "idx = filter (keepAt rects) [0..<length rects]"
  have len: "length (removeDuplicateRects rects) = length idx"
    by (simp add: removeDuplicateRects_def idx_def)
  have dist: "distinct idx" by (simp add: idx_def)
  have ia: "idx ! a \<in> set idx" and ib: "idx ! b \<in> set idx"
    using assms len by simp_all
  have neq: "idx ! a \<noteq> idx ! b"
    using dist assms len by (simp add: nth_eq_iff_index_eq)
  have ka: "keepAt rects (idx ! a)" and lb: "idx ! b < length rects"
    using ia ib by (auto simp: idx_def)
  have oa: "removeDuplicateRects rects ! a = rects ! (idx ! a)"
    and ob: "removeDuplicateRects rects ! b = rects ! (idx ! b)"
    using assms len by (simp_all add: removeDuplicateRects_def idx_def)
  from ka have "\<not> containedAt rects (idx ! a)" by (simp add: keepAt_def)
  then have "\<not> containedIn (rects ! (idx ! a)) (rects ! (idx ! b))"
    using lb neq unfolding containedAt_def by force
  then show ?thesis by (simp add: oa ob)
qed

lemma freeRects_updateFreeRects:
  "freeRects (updateFreeRects sheet p) =
     removeDuplicateRects
       (concat (map (splitFree (pl_x p) (pl_y p) (pl_w p + s_kerf sheet)
                       (pl_h p + s_kerf sheet)) (freeRects sheet)))"
  by (simp add: updateFreeRects_def Let_def)

text \<open>
  C3, as the code has it. After a placement update (\<open>updateFreeRects\<close>, which ends with
  \<open>removeDuplicateRects\<close>) every free rectangle of the sheet has positive width and
  height, and no free rectangle is contained in another one of the list. The free
  rectangles are not pairwise disjoint: the pieces left of, right of, above and below the
  occupied area keep the full height or width of the rectangle they come from.
\<close>

theorem updateFreeRects_no_containment:
  assumes "a < length (freeRects (updateFreeRects sheet p))"
  shows "0 < f_w (freeRects (updateFreeRects sheet p) ! a) \<and>
         0 < f_h (freeRects (updateFreeRects sheet p) ! a) \<and>
         (\<forall>b. b < length (freeRects (updateFreeRects sheet p)) \<and> b \<noteq> a \<longrightarrow>
            \<not> containedIn (freeRects (updateFreeRects sheet p) ! a)
                (freeRects (updateFreeRects sheet p) ! b))"
proof -
  have "freeRects (updateFreeRects sheet p) ! a \<in> set (freeRects (updateFreeRects sheet p))"
    using assms by (rule nth_mem)
  then have "0 < f_w (freeRects (updateFreeRects sheet p) ! a) \<and>
             0 < f_h (freeRects (updateFreeRects sheet p) ! a)"
    unfolding freeRects_updateFreeRects by (rule removeDuplicateRects_positive)
  moreover have "\<not> containedIn (freeRects (updateFreeRects sheet p) ! a)
                      (freeRects (updateFreeRects sheet p) ! b)"
    if "b < length (freeRects (updateFreeRects sheet p))" "b \<noteq> a" for b
    using assms that removeDuplicateRects_not_contained
    unfolding freeRects_updateFreeRects by blast
  ultimately show ?thesis by blast
qed

theorem updateFreeRects_no_containment_witness:
  "0 < length (freeRects (updateFreeRects cornerSheet cornerPlacement)) \<and>
   0 < f_w (freeRects (updateFreeRects cornerSheet cornerPlacement) ! 0) \<and>
   0 < f_h (freeRects (updateFreeRects cornerSheet cornerPlacement) ! 0) \<and>
   1 < length (freeRects (updateFreeRects cornerSheet cornerPlacement)) \<and>
   \<not> containedIn (freeRects (updateFreeRects cornerSheet cornerPlacement) ! 0)
       (freeRects (updateFreeRects cornerSheet cornerPlacement) ! 1) \<and>
   length (freeRects (updateFreeRects cornerSheet stripPlacement)) = 1 \<and>
   0 < f_w (freeRects (updateFreeRects cornerSheet stripPlacement) ! 0) \<and>
   0 < f_h (freeRects (updateFreeRects cornerSheet stripPlacement) ! 0)"
proof -
  have a: "0 < length (freeRects (updateFreeRects cornerSheet cornerPlacement))"
    by code_simp
  have b: "1 < length (freeRects (updateFreeRects cornerSheet cornerPlacement))"
    by code_simp
  have c: "length (freeRects (updateFreeRects cornerSheet stripPlacement)) = 1"
    by code_simp
  then have d: "0 < length (freeRects (updateFreeRects cornerSheet stripPlacement))"
    by simp
  show ?thesis
    using a b c updateFreeRects_no_containment [OF a] updateFreeRects_no_containment [OF d]
    by simp
qed

text \<open>
  The claim C3 as stated fails: after the 20 by 30 piece is put in the corner of a fresh
  48 by 96 sheet (kerf 1/8), the two free rectangles are
  \<open>(161/8, 0, 223/8, 96)\<close> and \<open>(0, 241/8, 48, 527/8)\<close>, which overlap.
\<close>

theorem freeRects_overlap_counterexample:
  "freeRects (updateFreeRects cornerSheet cornerPlacement) =
     [\<lparr> f_x = 161 / 8, f_y = 0, f_w = 223 / 8, f_h = 96 \<rparr>,
      \<lparr> f_x = 0, f_y = 241 / 8, f_w = 48, f_h = 527 / 8 \<rparr>] \<and>
   overlaps (freeRects (updateFreeRects cornerSheet cornerPlacement) ! 0)
            (freeRects (updateFreeRects cornerSheet cornerPlacement) ! 1)"
  by code_simp

section \<open>Placing pieces\<close>

lemma tryFreeRect_Some:
  assumes "tryFreeRect w h acc f = Some (pos, sc)"
  shows "acc = Some (pos, sc) \<or> fitsInto w h pos f"
  using assms by (auto simp: tryFreeRect_def Let_def fitsInto_def split: if_splits)

lemma foldl_tryFreeRect_Some:
  assumes "foldl (tryFreeRect w h) acc fs = Some (pos, sc)"
  shows "acc = Some (pos, sc) \<or> (\<exists>f \<in> set fs. fitsInto w h pos f)"
  using assms
proof (induction fs arbitrary: acc)
  case Nil
  then show ?case by simp
next
  case (Cons a fs)
  from Cons.prems have "foldl (tryFreeRect w h) (tryFreeRect w h acc a) fs = Some (pos, sc)"
    by simp
  from Cons.IH [OF this] show ?case
    using tryFreeRect_Some [of w h acc a pos sc] by auto
qed

lemma findBestPosition_Some:
  assumes "findBestPosition s w h kerf = Some pos"
  shows "\<exists>f \<in> set (freeRects s). fitsInto w h pos f"
proof -
  from assms obtain sc where "foldl (tryFreeRect w h) None (freeRects s) = Some (pos, sc)"
    by (auto simp: findBestPosition_def)
  from foldl_tryFreeRect_Some [OF this] show ?thesis by simp
qed

lemma findBestPosition_fresh:
  assumes "partFits w h sheetW sheetL"
  shows "\<exists>pos. findBestPosition (newSheet sheetW sheetL i kerf) w h kerf = Some pos \<and>
           pos_x pos = 0 \<and> pos_y pos = 0"
  using assms
  by (auto simp: findBestPosition_def newSheet_def tryFreeRect_def partFits_def Let_def)

lemma placeOnExisting_None_iff:
  "placeOnExisting shs rect kerf = None \<longleftrightarrow>
     (\<forall>s \<in> set shs. findBestPosition s (r_w rect) (r_h rect) kerf = None)"
  by (induction shs) (auto split: option.splits)

text \<open>
  C2. When a piece passes the raw fit check against the stock rectangle and no existing
  sheet has a position for it, \<open>findBestPosition\<close> on the fresh sheet returns a position
  (the corner \<open>(0, 0)\<close>), the piece becomes the only placement of the new sheet, and the
  new sheet is appended to the list of sheets; the unplaced list is unchanged.
\<close>

theorem fresh_sheet_accepts_fitting_piece:
  assumes "partFits (r_w rect) (r_h rect) sheetW sheetL"
    and "\<forall>s \<in> set shs. findBestPosition s (r_w rect) (r_h rect) kerf = None"
  shows "\<exists>pos. findBestPosition (newSheet sheetW sheetL (length shs + 1) kerf)
                  (r_w rect) (r_h rect) kerf = Some pos \<and>
               placeRect sheetW sheetL kerf (shs, unpl) rect =
                 (shs @ [addPlacement (newSheet sheetW sheetL (length shs + 1) kerf) rect
                           (pos_x pos) (pos_y pos) (pos_rotated pos)], unpl) \<and>
               placements (addPlacement (newSheet sheetW sheetL (length shs + 1) kerf) rect
                           (pos_x pos) (pos_y pos) (pos_rotated pos)) =
                 [mkPlacement rect 0 0 (pos_rotated pos)]"
proof -
  from findBestPosition_fresh [OF assms(1)] obtain pos where
    pos: "findBestPosition (newSheet sheetW sheetL (length shs + 1) kerf)
            (r_w rect) (r_h rect) kerf = Some pos" "pos_x pos = 0" "pos_y pos = 0"
    by blast
  have none: "placeOnExisting shs rect kerf = None"
    using assms(2) by (simp add: placeOnExisting_None_iff)
  have "placeRect sheetW sheetL kerf (shs, unpl) rect =
          (shs @ [addPlacement (newSheet sheetW sheetL (length shs + 1) kerf) rect
                    (pos_x pos) (pos_y pos) (pos_rotated pos)], unpl)"
    using assms(1) none pos(1) by (simp add: placeRect_def Let_def)
  moreover have "placements (addPlacement (newSheet sheetW sheetL (length shs + 1) kerf) rect
                           (pos_x pos) (pos_y pos) (pos_rotated pos)) =
                 [mkPlacement rect 0 0 (pos_rotated pos)]"
    using pos(2,3) by (simp add: addPlacement_def updateFreeRects_def newSheet_def Let_def)
  ultimately show ?thesis using pos(1) by blast
qed

lemma placements_addPlacement:
  "placements (addPlacement s rect x y rot) = placements s @ [mkPlacement rect x y rot]"
  by (simp add: addPlacement_def updateFreeRects_def Let_def)

lemma placeOnExisting_Some:
  assumes "placeOnExisting shs rect kerf = Some shs'"
  shows "\<exists>pre s post pos. shs = pre @ s # post \<and>
           findBestPosition s (r_w rect) (r_h rect) kerf = Some pos \<and>
           shs' = pre @ addPlacement s rect (pos_x pos) (pos_y pos) (pos_rotated pos) # post"
  using assms
proof (induction shs arbitrary: shs')
  case Nil
  then show ?case by simp
next
  case (Cons a shs)
  show ?case
  proof (cases "findBestPosition a (r_w rect) (r_h rect) kerf")
    case (Some pos)
    with Cons.prems have "shs' = addPlacement a rect (pos_x pos) (pos_y pos) (pos_rotated pos) # shs"
      by simp
    with Some show ?thesis by (metis append_Nil)
  next
    case None
    with Cons.prems obtain t where t: "placeOnExisting shs rect kerf = Some t" "shs' = a # t"
      by auto
    from Cons.IH [OF t(1)] obtain pre s post pos where
      "shs = pre @ s # post" "findBestPosition s (r_w rect) (r_h rect) kerf = Some pos"
      "t = pre @ addPlacement s rect (pos_x pos) (pos_y pos) (pos_rotated pos) # post"
      by blast
    with t(2) show ?thesis by (metis append_Cons)
  qed
qed

lemma placeRect_invariant:
  assumes step: "\<And>s pos. I s \<Longrightarrow> findBestPosition s (r_w rect) (r_h rect) kerf = Some pos \<Longrightarrow>
             I (addPlacement s rect (pos_x pos) (pos_y pos) (pos_rotated pos))"
    and fresh: "\<And>i pos. findBestPosition (newSheet sheetW sheetL i kerf) (r_w rect) (r_h rect) kerf = Some pos \<Longrightarrow>
             I (addPlacement (newSheet sheetW sheetL i kerf) rect (pos_x pos) (pos_y pos) (pos_rotated pos))"
    and inv: "\<forall>s \<in> set (fst st). I s"
  shows "\<forall>s \<in> set (fst (placeRect sheetW sheetL kerf st rect)). I s"
proof -
  obtain shs unpl where st: "st = (shs, unpl)" by (cases st)
  show ?thesis
  proof (cases "partFits (r_w rect) (r_h rect) sheetW sheetL")
    case False
    then show ?thesis using inv st by (simp add: placeRect_def)
  next
    case True
    show ?thesis
    proof (cases "placeOnExisting shs rect kerf")
      case (Some shs')
      from placeOnExisting_Some [OF Some] obtain pre s post pos where
        d: "shs = pre @ s # post" "findBestPosition s (r_w rect) (r_h rect) kerf = Some pos"
        "shs' = pre @ addPlacement s rect (pos_x pos) (pos_y pos) (pos_rotated pos) # post"
        by blast
      have "I s" using inv st d(1) by simp
      from step [OF this d(2)] have "\<forall>t \<in> set shs'. I t"
        using inv st d(1,3) by auto
      then show ?thesis using True Some st by (simp add: placeRect_def)
    next
      case None
      show ?thesis
      proof (cases "findBestPosition (newSheet sheetW sheetL (length shs + 1) kerf) (r_w rect) (r_h rect) kerf")
        case n: None
        then show ?thesis using True None inv st by (simp add: placeRect_def Let_def)
      next
        case (Some pos)
        from fresh [OF Some] show ?thesis
          using True None Some inv st by (simp add: placeRect_def Let_def)
      qed
    qed
  qed
qed

lemma foldl_placeRect_invariant:
  assumes step: "\<And>s pos rect. I s \<Longrightarrow> findBestPosition s (r_w rect) (r_h rect) kerf = Some pos \<Longrightarrow>
             I (addPlacement s rect (pos_x pos) (pos_y pos) (pos_rotated pos))"
    and fresh: "\<And>i pos rect. findBestPosition (newSheet sheetW sheetL i kerf) (r_w rect) (r_h rect) kerf = Some pos \<Longrightarrow>
             I (addPlacement (newSheet sheetW sheetL i kerf) rect (pos_x pos) (pos_y pos) (pos_rotated pos))"
    and inv: "\<forall>s \<in> set (fst st). I s"
  shows "\<forall>s \<in> set (fst (foldl (placeRect sheetW sheetL kerf) st rects)). I s"
  using inv
proof (induction rects arbitrary: st)
  case Nil
  then show ?case by simp
next
  case (Cons r rects)
  have "\<forall>s \<in> set (fst (placeRect sheetW sheetL kerf st r)). I s"
  proof (rule placeRect_invariant [where I = I])
    show "\<forall>s \<in> set (fst st). I s" by (fact Cons.prems)
  qed (fact step, fact fresh)
  from Cons.IH [OF this] show ?case by simp
qed

lemma nestParts_invariant:
  assumes step: "\<And>s pos rect. I s \<Longrightarrow> findBestPosition s (r_w rect) (r_h rect) kerf = Some pos \<Longrightarrow>
             I (addPlacement s rect (pos_x pos) (pos_y pos) (pos_rotated pos))"
    and fresh: "\<And>i pos rect. findBestPosition (newSheet sheetW sheetL i kerf) (r_w rect) (r_h rect) kerf = Some pos \<Longrightarrow>
             I (addPlacement (newSheet sheetW sheetL i kerf) rect (pos_x pos) (pos_y pos) (pos_rotated pos))"
  shows "\<forall>s \<in> set (sheets (nestParts parts sheetW sheetL kerf)). I s"
proof -
  have "\<forall>s \<in> set (fst (foldl (placeRect sheetW sheetL kerf) ([], [])
            (sortRects (expandParts parts [])))). I s"
  proof (rule foldl_placeRect_invariant [where I = I])
    show "\<forall>s \<in> set (fst (([], []) :: Sheet list \<times> Rectangle list)). I s" by simp
  qed (fact step, fact fresh)
  then show ?thesis by (simp add: nestParts_def Let_def)
qed

text \<open>
  C10. Every sheet in the list returned by \<open>nestParts\<close> holds at least one placement.
\<close>

theorem nestParts_sheets_nonempty:
  assumes "s \<in> set (sheets (nestParts parts sheetW sheetL kerf))"
  shows "placements s \<noteq> []"
proof -
  have "\<forall>s \<in> set (sheets (nestParts parts sheetW sheetL kerf)). placements s \<noteq> []"
    by (rule nestParts_invariant) (simp_all add: placements_addPlacement)
  with assms show ?thesis by blast
qed

lemma splitFree_inBounds:
  assumes "freeInBounds W L f" and "g \<in> set (splitFree ox oy ow oh f)"
  shows "freeInBounds W L g"
  using assms by (auto simp: splitFree_def freeInBounds_def split: if_splits)

lemma addPlacement_inBounds:
  assumes inv: "sheetInBounds W L s"
    and pos: "findBestPosition s (r_w rect) (r_h rect) kerf = Some pos"
  shows "sheetInBounds W L (addPlacement s rect (pos_x pos) (pos_y pos) (pos_rotated pos))"
proof -
  from findBestPosition_Some [OF pos] obtain f where
    f: "f \<in> set (freeRects s)" "fitsInto (r_w rect) (r_h rect) pos f" by blast
  have fb: "freeInBounds W L f" using inv f(1) by (simp add: sheetInBounds_def)
  have pb: "inBounds W L (mkPlacement rect (pos_x pos) (pos_y pos) (pos_rotated pos))"
    using fb f(2) by (auto simp: inBounds_def mkPlacement_def fitsInto_def freeInBounds_def split: if_splits)
  have free: "\<forall>g \<in> set (freeRects (addPlacement s rect (pos_x pos) (pos_y pos) (pos_rotated pos))). freeInBounds W L g"
  proof
    fix g assume "g \<in> set (freeRects (addPlacement s rect (pos_x pos) (pos_y pos) (pos_rotated pos)))"
    then have "g \<in> set (removeDuplicateRects (concat (map (splitFree (pos_x pos) (pos_y pos)
                  (pl_w (mkPlacement rect (pos_x pos) (pos_y pos) (pos_rotated pos)) + s_kerf s)
                  (pl_h (mkPlacement rect (pos_x pos) (pos_y pos) (pos_rotated pos)) + s_kerf s))
                  (freeRects s))))"
      by (simp add: addPlacement_def Let_def freeRects_updateFreeRects mkPlacement_def)
    then have "g \<in> set (concat (map (splitFree (pos_x pos) (pos_y pos)
                  (pl_w (mkPlacement rect (pos_x pos) (pos_y pos) (pos_rotated pos)) + s_kerf s)
                  (pl_h (mkPlacement rect (pos_x pos) (pos_y pos) (pos_rotated pos)) + s_kerf s))
                  (freeRects s)))"
      using removeDuplicateRects_subset by blast
    then obtain f' where "f' \<in> set (freeRects s)"
      "g \<in> set (splitFree (pos_x pos) (pos_y pos)
                  (pl_w (mkPlacement rect (pos_x pos) (pos_y pos) (pos_rotated pos)) + s_kerf s)
                  (pl_h (mkPlacement rect (pos_x pos) (pos_y pos) (pos_rotated pos)) + s_kerf s) f')"
      by auto
    then show "freeInBounds W L g"
      using inv splitFree_inBounds by (auto simp: sheetInBounds_def)
  qed
  show ?thesis
    using free pb inv by (auto simp: sheetInBounds_def placements_addPlacement)
qed

lemma newSheet_inBounds: "sheetInBounds W L (newSheet W L i kerf)"
  by (simp add: sheetInBounds_def newSheet_def freeInBounds_def)

text \<open>
  In exact arithmetic every placement on every sheet returned by \<open>nestParts\<close> lies
  within the sheet: \<open>0 <= x\<close>, \<open>0 <= y\<close>, \<open>x + w <= sheetW\<close> and \<open>y + h <= sheetL\<close>.
\<close>

lemma nestParts_placements_in_bounds:
  assumes "s \<in> set (sheets (nestParts parts sheetW sheetL kerf))"
    and "p \<in> set (placements s)"
  shows "0 \<le> pl_x p \<and> 0 \<le> pl_y p \<and> pl_x p + pl_w p \<le> sheetW \<and> pl_y p + pl_h p \<le> sheetL"
proof -
  have "\<forall>s \<in> set (sheets (nestParts parts sheetW sheetL kerf)). sheetInBounds sheetW sheetL s"
    by (rule nestParts_invariant) (simp_all add: addPlacement_inBounds newSheet_inBounds)
  with assms show ?thesis by (auto simp: sheetInBounds_def inBounds_def)
qed

section \<open>Concrete nesting runs\<close>

theorem fresh_sheet_accepts_fitting_piece_witness:
  "partFits (r_w (plainRect 24 61 1)) (r_h (plainRect 24 61 1)) 48 96 \<and>
   findBestPosition fullSheet (r_w (plainRect 24 61 1)) (r_h (plainRect 24 61 1)) (1 / 8) =
     None \<and>
   placeRect 48 96 (1 / 8) ([fullSheet], []) (plainRect 24 61 1) =
     ([fullSheet] @ [addPlacement (newSheet 48 96 (length [fullSheet] + 1) (1 / 8))
                       (plainRect 24 61 1) 0 0 False], [])"
proof -
  have fit: "partFits (r_w (plainRect 24 61 1)) (r_h (plainRect 24 61 1)) 48 96"
    by code_simp
  have full: "findBestPosition fullSheet (r_w (plainRect 24 61 1)) (r_h (plainRect 24 61 1))
                (1 / 8) = None"
    by code_simp
  then have none: "\<forall>s \<in> set [fullSheet].
      findBestPosition s (r_w (plainRect 24 61 1)) (r_h (plainRect 24 61 1)) (1 / 8) = None"
    by simp
  have corner: "findBestPosition (newSheet 48 96 (length [fullSheet] + 1) (1 / 8))
                  (r_w (plainRect 24 61 1)) (r_h (plainRect 24 61 1)) (1 / 8) =
                Some \<lparr> pos_x = 0, pos_y = 0, pos_rotated = False \<rparr>"
    by code_simp
  from fresh_sheet_accepts_fitting_piece [OF fit none, of "[]"] obtain pos where
    p: "findBestPosition (newSheet 48 96 (length [fullSheet] + 1) (1 / 8))
          (r_w (plainRect 24 61 1)) (r_h (plainRect 24 61 1)) (1 / 8) = Some pos"
    and r: "placeRect 48 96 (1 / 8) ([fullSheet], []) (plainRect 24 61 1) =
          ([fullSheet] @ [addPlacement (newSheet 48 96 (length [fullSheet] + 1) (1 / 8))
                            (plainRect 24 61 1) (pos_x pos) (pos_y pos) (pos_rotated pos)], [])"
    by blast
  from p corner have "pos = \<lparr> pos_x = 0, pos_y = 0, pos_rotated = False \<rparr>" by simp
  with r have "placeRect 48 96 (1 / 8) ([fullSheet], []) (plainRect 24 61 1) =
     ([fullSheet] @ [addPlacement (newSheet 48 96 (length [fullSheet] + 1) (1 / 8))
                       (plainRect 24 61 1) 0 0 False], [])"
    by simp
  with fit full show ?thesis by blast
qed

theorem nestParts_sheets_nonempty_witness:
  "hd (sheets (nestParts threeParts 48 96 (1 / 8))) \<in>
     set (sheets (nestParts threeParts 48 96 (1 / 8))) \<and>
   placements (hd (sheets (nestParts threeParts 48 96 (1 / 8)))) \<noteq> []"
proof -
  have m: "hd (sheets (nestParts threeParts 48 96 (1 / 8))) \<in>
     set (sheets (nestParts threeParts 48 96 (1 / 8)))"
    by code_simp
  show ?thesis using m nestParts_sheets_nonempty [OF m] by simp
qed

text \<open>
  C1. The occupied-plus-kerf rectangles of two placements on one sheet can intersect.
  For the parts 24 by 61, 18 by 63 and 24 1/8 by 12 on a 48 by 96 sheet with kerf 1/8,
  \<open>nestParts\<close> puts all three on one sheet, at \<open>(0, 0)\<close>, \<open>(24 1/8, 0)\<close> and
  \<open>(0, 61 1/8)\<close>. The third piece fills the whole width \<open>24 1/8\<close> of the free rectangle
  left of the second piece, so it ends exactly where the second piece begins: the two
  pieces touch along \<open>x = 24 1/8\<close> for \<open>61 1/8 <= y < 63\<close>, and their rectangles widened
  by the kerf overlap. \<open>findBestPosition\<close> compares the bare piece with the free rectangle
  and never reads its \<open>kerf\<close> argument.
\<close>

theorem nestParts_kerf_overlap_example:
  "length (sheets (nestParts threeParts 48 96 (1 / 8))) = 1 \<and>
   unplaced (nestParts threeParts 48 96 (1 / 8)) = [] \<and>
   map (\<lambda>p. (pl_x p, pl_y p, pl_w p, pl_h p, pl_rotated p))
     (placements (hd (sheets (nestParts threeParts 48 96 (1 / 8))))) =
     [(0, 0, 24, 61, False), (193 / 8, 0, 18, 63, False), (0, 489 / 8, 193 / 8, 12, False)] \<and>
   overlaps (kerfRect (1 / 8) (placements (hd (sheets (nestParts threeParts 48 96 (1 / 8)))) ! 1))
            (kerfRect (1 / 8) (placements (hd (sheets (nestParts threeParts 48 96 (1 / 8)))) ! 2))"
  by code_simp

section \<open>Rounding to a double\<close>

lemma log2floor_bounds:
  "0 < n \<Longrightarrow> 2 ^ log2floor n \<le> n \<and> n < 2 ^ Suc (log2floor n)"
proof (induction n rule: log2floor.induct)
  case (1 n)
  show ?case
  proof (cases "n < 2")
    case True
    with "1.prems" have "n = 1" by simp
    then show ?thesis by (simp add: log2floor.simps)
  next
    case False
    then have "0 < n div 2" by simp
    from "1.IH" [OF False this]
    have ih: "2 ^ log2floor (n div 2) \<le> n div 2" "n div 2 < 2 ^ Suc (log2floor (n div 2))"
      by simp_all
    have eq: "log2floor n = Suc (log2floor (n div 2))"
      using False by (subst log2floor.simps) simp
    have "2 * 2 ^ log2floor (n div 2) \<le> n" using ih(1) by linarith
    moreover have "n < 2 * 2 ^ Suc (log2floor (n div 2))" using ih(2) by linarith
    ultimately show ?thesis by (simp add: eq)
  qed
qed

lemma pow2_powi: "pow2 e = 2 powi e"
  by (simp add: pow2_def power_int_def power_inverse field_simps)

lemma pow2_pos: "0 < pow2 e"
  by (simp add: pow2_powi)

lemma pow2_shift: "pow2 (e - 52) * 2 ^ 52 = pow2 e"
proof -
  have "(2::rat) powi (e - 52) * 2 powi 52 = 2 powi e"
    by (subst power_int_add [symmetric]) simp_all
  then show ?thesis by (simp add: pow2_powi)
qed

lemma expo_lower:
  assumes "0 < x"
  shows "pow2 (expo x) \<le> x"
proof (cases "1 \<le> x")
  case True
  define n where "n = nat \<lfloor>x\<rfloor>"
  have n: "0 < n" "rat_of_nat n \<le> x"
    using True by (simp_all add: n_def le_floor_iff)
  from log2floor_bounds [OF n(1)] have "2 ^ log2floor n \<le> n" by simp
  then have "(2::rat) ^ log2floor n \<le> rat_of_nat n"
    by (metis of_nat_le_iff of_nat_numeral of_nat_power)
  with n(2) have "(2::rat) ^ log2floor n \<le> x" by linarith
  then show ?thesis using True by (simp add: expo_def n_def pow2_def)
next
  case False
  define y where "y = 1 / x"
  define n where "n = nat \<lceil>y\<rceil> - 1"
  have y: "1 < y" using assms False by (simp add: y_def)
  then have c: "2 \<le> \<lceil>y\<rceil>" by linarith
  then have n: "0 < n" by (simp add: n_def)
  have yn: "y \<le> rat_of_nat (n + 1)"
  proof -
    have "int (n + 1) = \<lceil>y\<rceil>" using c by (simp add: n_def)
    then have "rat_of_nat (n + 1) = rat_of_int \<lceil>y\<rceil>" by (metis of_int_of_nat_eq)
    then show ?thesis by (simp add: le_of_int_ceiling)
  qed
  from log2floor_bounds [OF n] have "n + 1 \<le> 2 ^ Suc (log2floor n)" by simp
  then have "rat_of_nat (n + 1) \<le> 2 ^ Suc (log2floor n)"
    by (metis of_nat_le_iff of_nat_numeral of_nat_power)
  with yn have "y \<le> 2 ^ Suc (log2floor n)" by linarith
  then have "1 / 2 ^ Suc (log2floor n) \<le> x"
    using assms by (simp add: y_def field_simps)
  moreover have "nat (int (log2floor n) + 1) = Suc (log2floor n)" by linarith
  ultimately show ?thesis using False by (simp add: expo_def n_def y_def pow2_def)
qed

lemma expo_upper:
  assumes "0 < x"
  shows "x < 2 * pow2 (expo x)"
proof (cases "1 \<le> x")
  case True
  define n where "n = nat \<lfloor>x\<rfloor>"
  have n: "0 < n" "x < rat_of_nat (n + 1)"
    using True by (simp_all add: n_def le_floor_iff) linarith
  from log2floor_bounds [OF n(1)] have "n + 1 \<le> 2 ^ Suc (log2floor n)" by simp
  then have "rat_of_nat (n + 1) \<le> 2 ^ Suc (log2floor n)"
    by (metis of_nat_le_iff of_nat_numeral of_nat_power)
  with n(2) have "x < 2 ^ Suc (log2floor n)" by linarith
  then show ?thesis using True by (simp add: expo_def n_def pow2_def)
next
  case False
  define y where "y = 1 / x"
  define n where "n = nat \<lceil>y\<rceil> - 1"
  have y: "1 < y" using assms False by (simp add: y_def)
  then have c: "2 \<le> \<lceil>y\<rceil>" by linarith
  then have n: "0 < n" by (simp add: n_def)
  have ny: "rat_of_nat n < y"
  proof -
    have "int n = \<lceil>y\<rceil> - 1" using c unfolding n_def by linarith
    then have "rat_of_nat n = rat_of_int (\<lceil>y\<rceil> - 1)" by (metis of_int_of_nat_eq)
    then show ?thesis by simp linarith
  qed
  from log2floor_bounds [OF n] have "2 ^ log2floor n \<le> n" by simp
  then have "(2::rat) ^ log2floor n \<le> rat_of_nat n"
    by (metis of_nat_le_iff of_nat_numeral of_nat_power)
  with ny have "2 ^ log2floor n < y" by linarith
  then have "x < 1 / 2 ^ log2floor n"
    using assms by (simp add: y_def field_simps)
  moreover have "nat (int (log2floor n) + 1) = Suc (log2floor n)" by linarith
  ultimately show ?thesis using False by (simp add: expo_def n_def y_def pow2_def)
qed

lemma roundEven_upper: "rat_of_int (roundEven m) \<le> m + 1 / 2"
proof -
  have "rat_of_int \<lfloor>m\<rfloor> \<le> m" by simp
  then show ?thesis by (auto simp: roundEven_def Let_def; linarith)
qed

lemma roundEven_lower: "m - 1 / 2 \<le> rat_of_int (roundEven m)"
proof -
  have "m < rat_of_int \<lfloor>m\<rfloor> + 1" by linarith
  then show ?thesis by (auto simp: roundEven_def Let_def; linarith)
qed

text \<open>
  Rounding to a double enlarges a number that is not negative by at most the relative
  error \<open>2 ^ -53\<close>.
\<close>

lemma fl64_upper:
  assumes "0 \<le> x"
  shows "fl64 x \<le> x * (1 + 1 / 2 ^ 53)"
proof (cases "x = 0")
  case True
  then show ?thesis by (simp add: fl64_def)
next
  case False
  with assms have x: "0 < x" by simp
  define e where "e = expo x - 52"
  define q where "q = x / pow2 e"
  have pe: "0 < pow2 e" by (rule pow2_pos)
  have "pow2 e * 2 ^ 52 \<le> x"
    using expo_lower [OF x] pow2_shift [of "expo x"] by (simp add: e_def)
  then have half: "pow2 e * (1 / 2) \<le> x * (1 / 2 ^ 53)" by simp
  have xq: "q * pow2 e = x" using pe by (simp add: q_def)
  have "rat_of_int (roundEven q) * pow2 e \<le> (q + 1 / 2) * pow2 e"
    using roundEven_upper [of q] pe by (simp add: mult_right_mono)
  also have "\<dots> = x + pow2 e * (1 / 2)" using xq by (simp add: algebra_simps)
  also have "\<dots> \<le> x + x * (1 / 2 ^ 53)" using half by linarith
  finally have "rat_of_int (roundEven q) * pow2 e \<le> x * (1 + 1 / 2 ^ 53)"
    by (simp add: algebra_simps)
  moreover have "fl64 x = rat_of_int (roundEven q) * pow2 e"
    using x by (simp add: fl64_def Let_def e_def q_def)
  ultimately show ?thesis by simp
qed

lemma fl64_roundsWithin: "roundsWithin fl64 (1 / 2 ^ 53)"
  using fl64_upper by (simp add: roundsWithin_def)

lemma exact_roundsWithin: "roundsWithin (\<lambda>x. x) 0"
  by (simp add: roundsWithin_def)

section \<open>Clearance kept between pieces\<close>

lemma overlaps_mono_left:
  "overlaps a b \<Longrightarrow> containedIn a f \<Longrightarrow> overlaps f b"
  by (auto simp: overlaps_def containedIn_def)

lemma overlaps_mono_right:
  "overlaps a b \<Longrightarrow> containedIn b c \<Longrightarrow> overlaps a c"
  by (auto simp: overlaps_def containedIn_def)

lemma splitFree_containedIn:
  assumes "g \<in> set (splitFree ox oy ow oh f)"
  shows "containedIn g f"
  using assms by (auto simp: splitFree_def containedIn_def split: if_splits)

lemma splitFree_clear:
  assumes "g \<in> set (splitFree ox oy ow oh f)"
  shows "\<not> overlaps g \<lparr> f_x = ox, f_y = oy, f_w = ow, f_h = oh \<rparr>"
  using assms by (auto simp: splitFree_def overlaps_def split: if_splits)

lemma fitsInto_containedIn:
  assumes "fitsInto (r_w rect) (r_h rect) pos f"
  shows "containedIn (kerfRect 0 (mkPlacement rect (pos_x pos) (pos_y pos) (pos_rotated pos))) f"
  using assms by (auto simp: fitsInto_def containedIn_def kerfRect_def mkPlacement_def split: if_splits)

lemma laterClear_snoc:
  assumes "laterClear kerf ps"
    and "\<forall>q \<in> set ps. \<not> overlaps (kerfRect 0 p) (kerfRect kerf q)"
  shows "laterClear kerf (ps @ [p])"
  unfolding laterClear_def
proof (intro ballI)
  fix j i assume j: "j \<in> set [0..<length (ps @ [p])]" and i: "i \<in> set [0..<j]"
  show "\<not> overlaps (kerfRect 0 ((ps @ [p]) ! j)) (kerfRect kerf ((ps @ [p]) ! i))"
  proof (cases "j < length ps")
    case True
    then have "(ps @ [p]) ! j = ps ! j" "(ps @ [p]) ! i = ps ! i"
      using i by (simp_all add: nth_append)
    then show ?thesis using assms(1) True i by (simp add: laterClear_def)
  next
    case False
    then have jl: "j = length ps" using j by simp
    then have "(ps @ [p]) ! j = p" "(ps @ [p]) ! i = ps ! i" "ps ! i \<in> set ps"
      using i by (simp_all add: nth_append)
    then show ?thesis using assms(2) by simp
  qed
qed

lemma freeRects_addPlacement:
  "g \<in> set (freeRects (addPlacement s rect x y rot)) \<Longrightarrow>
     \<exists>f \<in> set (freeRects s).
       g \<in> set (splitFree x y (pl_w (mkPlacement rect x y rot) + s_kerf s)
                   (pl_h (mkPlacement rect x y rot) + s_kerf s) f)"
proof -
  assume "g \<in> set (freeRects (addPlacement s rect x y rot))"
  then have "g \<in> set (removeDuplicateRects (concat (map (splitFree x y
                  (pl_w (mkPlacement rect x y rot) + s_kerf s)
                  (pl_h (mkPlacement rect x y rot) + s_kerf s)) (freeRects s))))"
    by (simp add: addPlacement_def Let_def freeRects_updateFreeRects mkPlacement_def)
  then have "g \<in> set (concat (map (splitFree x y
                  (pl_w (mkPlacement rect x y rot) + s_kerf s)
                  (pl_h (mkPlacement rect x y rot) + s_kerf s)) (freeRects s)))"
    using removeDuplicateRects_subset by blast
  then show ?thesis by auto
qed

lemma s_kerf_addPlacement: "s_kerf (addPlacement s rect x y rot) = s_kerf s"
  by (simp add: addPlacement_def updateFreeRects_def Let_def)

lemma addPlacement_clear:
  assumes inv: "sheetClear kerf s"
    and pos: "findBestPosition s (r_w rect) (r_h rect) k' = Some pos"
  shows "sheetClear kerf (addPlacement s rect (pos_x pos) (pos_y pos) (pos_rotated pos))"
proof -
  define p where "p = mkPlacement rect (pos_x pos) (pos_y pos) (pos_rotated pos)"
  from findBestPosition_Some [OF pos] obtain f where
    f: "f \<in> set (freeRects s)" "fitsInto (r_w rect) (r_h rect) pos f" by blast
  have kf: "s_kerf s = kerf" using inv by (simp add: sheetClear_def)
  have pin: "containedIn (kerfRect 0 p) f"
    unfolding p_def by (rule fitsInto_containedIn [OF f(2)])
  have old: "\<forall>q \<in> set (placements s). \<not> overlaps (kerfRect 0 p) (kerfRect kerf q)"
    using inv f(1) pin overlaps_mono_left unfolding sheetClear_def by blast
  have later: "laterClear kerf (placements s @ [p])"
    using inv old by (simp add: sheetClear_def laterClear_snoc)
  have occ: "kerfRect kerf p = \<lparr> f_x = pos_x pos, f_y = pos_y pos,
               f_w = pl_w p + kerf, f_h = pl_h p + kerf \<rparr>"
    by (simp add: kerfRect_def p_def mkPlacement_def)
  have free: "\<forall>g \<in> set (freeRects (addPlacement s rect (pos_x pos) (pos_y pos) (pos_rotated pos))).
                \<forall>q \<in> set (placements s @ [p]). \<not> overlaps g (kerfRect kerf q)"
  proof (intro ballI)
    fix g q
    assume g: "g \<in> set (freeRects (addPlacement s rect (pos_x pos) (pos_y pos) (pos_rotated pos)))"
      and q: "q \<in> set (placements s @ [p])"
    from freeRects_addPlacement [OF g] obtain f' where
      f': "f' \<in> set (freeRects s)"
      "g \<in> set (splitFree (pos_x pos) (pos_y pos) (pl_w p + kerf) (pl_h p + kerf) f')"
      unfolding p_def kf by blast
    show "\<not> overlaps g (kerfRect kerf q)"
    proof (cases "q = p")
      case True
      then show ?thesis using splitFree_clear [OF f'(2)] occ by simp
    next
      case False
      then have "q \<in> set (placements s)" using q by simp
      then have "\<not> overlaps f' (kerfRect kerf q)"
        using inv f'(1) by (simp add: sheetClear_def)
      then show ?thesis
        using splitFree_containedIn [OF f'(2)] overlaps_mono_left by blast
    qed
  qed
  show ?thesis
    unfolding sheetClear_def
    using free later kf by (simp add: placements_addPlacement s_kerf_addPlacement p_def)
qed

lemma newSheet_clear: "sheetClear kerf (newSheet W L i kerf)"
  by (simp add: sheetClear_def newSheet_def laterClear_def)

lemma nestParts_sheetClear:
  "\<forall>s \<in> set (sheets (nestParts parts sheetW sheetL kerf)). sheetClear kerf s"
  by (rule nestParts_invariant) (simp_all add: addPlacement_clear newSheet_clear)

text \<open>
  What the bookkeeping does guarantee in exact arithmetic, for every kerf: on each
  returned sheet a piece placed later does not reach into the widened rectangle of a
  piece placed earlier.
\<close>

lemma nestParts_later_piece_clear:
  assumes "s \<in> set (sheets (nestParts parts sheetW sheetL kerf))"
    and "j < length (placements s)" and "i < j"
  shows "\<not> overlaps (kerfRect 0 (placements s ! j)) (kerfRect kerf (placements s ! i))"
proof -
  have "laterClear kerf (placements s)"
    using nestParts_sheetClear assms(1) by (auto simp: sheetClear_def)
  then show ?thesis using assms(2,3) by (simp add: laterClear_def)
qed

lemma overlaps_sym: "overlaps a b \<Longrightarrow> overlaps b a"
  by (auto simp: overlaps_def)

lemma kerfRect_widens: "0 \<le> kerf \<Longrightarrow> containedIn (kerfRect 0 p) (kerfRect kerf p)"
  by (simp add: containedIn_def kerfRect_def)

text \<open>
  With a kerf that is not negative, the pieces themselves never overlap (again in exact
  arithmetic).
\<close>

lemma nestParts_pieces_disjoint:
  assumes "s \<in> set (sheets (nestParts parts sheetW sheetL kerf))" and "0 \<le> kerf"
    and "i < length (placements s)" and "j < length (placements s)" and "i \<noteq> j"
  shows "\<not> overlaps (kerfRect 0 (placements s ! i)) (kerfRect 0 (placements s ! j))"
proof -
  have *: "\<not> overlaps (kerfRect 0 (placements s ! b)) (kerfRect 0 (placements s ! a))"
    if "a < b" "b < length (placements s)" for a b
    using nestParts_later_piece_clear [OF assms(1) that(2) that(1)]
      overlaps_mono_right [OF _ kerfRect_widens [OF assms(2)]] by blast
  show ?thesis
  proof (cases "i < j")
    case True
    from * [OF True assms(4)] show ?thesis using overlaps_sym by blast
  next
    case False
    then have "j < i" using assms(5) by simp
    from * [OF this assms(3)] show ?thesis .
  qed
qed

section \<open>Placements under rounded arithmetic\<close>

lemma tryFreeRectR_Some:
  assumes "tryFreeRectR rnd w h acc f = Some (pos, sc)"
  shows "acc = Some (pos, sc) \<or> fitsInto w h pos f"
  using assms by (auto simp: tryFreeRectR_def Let_def fitsInto_def split: if_splits)

lemma foldl_tryFreeRectR_Some:
  assumes "foldl (tryFreeRectR rnd w h) acc fs = Some (pos, sc)"
  shows "acc = Some (pos, sc) \<or> (\<exists>f \<in> set fs. fitsInto w h pos f)"
  using assms
proof (induction fs arbitrary: acc)
  case Nil
  then show ?case by simp
next
  case (Cons a fs)
  from Cons.prems
  have "foldl (tryFreeRectR rnd w h) (tryFreeRectR rnd w h acc a) fs = Some (pos, sc)"
    by simp
  from Cons.IH [OF this] show ?case
    using tryFreeRectR_Some [of rnd w h acc a pos sc] by auto
qed

lemma findBestPositionR_Some:
  assumes "findBestPositionR rnd s w h kerf = Some pos"
  shows "\<exists>f \<in> set (freeRects s). fitsInto w h pos f"
proof -
  from assms obtain sc where
    "foldl (tryFreeRectR rnd w h) None (freeRects s) = Some (pos, sc)"
    by (auto simp: findBestPositionR_def)
  from foldl_tryFreeRectR_Some [OF this] show ?thesis by simp
qed

lemma placements_addPlacementR:
  "placements (addPlacementR rnd s rect x y rot) = placements s @ [mkPlacement rect x y rot]"
  by (simp add: addPlacementR_def updateFreeRectsR_def Let_def)

lemma removeDuplicateRectsR_subset:
  "set (removeDuplicateRectsR rnd rects) \<subseteq> set rects"
  by (auto simp: removeDuplicateRectsR_def)

lemma removeDuplicateRectsR_positive:
  "r \<in> set (removeDuplicateRectsR rnd rects) \<Longrightarrow> 0 < f_w r \<and> 0 < f_h r"
  by (auto simp: removeDuplicateRectsR_def keepAtR_def)

lemma freeRects_addPlacementR:
  assumes "g \<in> set (freeRects (addPlacementR rnd s rect x y rot))"
  shows "0 < f_w g \<and> 0 < f_h g \<and>
         (\<exists>f \<in> set (freeRects s).
            g \<in> set (splitFreeR rnd x y (rnd (pl_w (mkPlacement rect x y rot) + s_kerf s))
                        (rnd (pl_h (mkPlacement rect x y rot) + s_kerf s)) f))"
proof -
  from assms have m: "g \<in> set (removeDuplicateRectsR rnd (concat (map (splitFreeR rnd x y
                  (rnd (pl_w (mkPlacement rect x y rot) + s_kerf s))
                  (rnd (pl_h (mkPlacement rect x y rot) + s_kerf s))) (freeRects s))))"
    by (simp add: addPlacementR_def Let_def updateFreeRectsR_def mkPlacement_def)
  then have "g \<in> set (concat (map (splitFreeR rnd x y
                  (rnd (pl_w (mkPlacement rect x y rot) + s_kerf s))
                  (rnd (pl_h (mkPlacement rect x y rot) + s_kerf s))) (freeRects s)))"
    using removeDuplicateRectsR_subset by blast
  with removeDuplicateRectsR_positive [OF m] show ?thesis by auto
qed

lemma placeOnExistingR_Some:
  assumes "placeOnExistingR rnd shs rect kerf = Some shs'"
  shows "\<exists>pre s post pos. shs = pre @ s # post \<and>
           findBestPositionR rnd s (r_w rect) (r_h rect) kerf = Some pos \<and>
           shs' = pre @ addPlacementR rnd s rect (pos_x pos) (pos_y pos) (pos_rotated pos) # post"
  using assms
proof (induction shs arbitrary: shs')
  case Nil
  then show ?case by simp
next
  case (Cons a shs)
  show ?case
  proof (cases "findBestPositionR rnd a (r_w rect) (r_h rect) kerf")
    case (Some pos)
    with Cons.prems
    have "shs' = addPlacementR rnd a rect (pos_x pos) (pos_y pos) (pos_rotated pos) # shs"
      by simp
    with Some show ?thesis by (metis append_Nil)
  next
    case None
    with Cons.prems obtain t where
      t: "placeOnExistingR rnd shs rect kerf = Some t" "shs' = a # t"
      by auto
    from Cons.IH [OF t(1)] obtain pre s post pos where
      "shs = pre @ s # post" "findBestPositionR rnd s (r_w rect) (r_h rect) kerf = Some pos"
      "t = pre @ addPlacementR rnd s rect (pos_x pos) (pos_y pos) (pos_rotated pos) # post"
      by blast
    with t(2) show ?thesis by (metis append_Cons)
  qed
qed

lemma placeRectR_invariant:
  assumes step: "\<And>s pos. I s \<Longrightarrow>
             findBestPositionR rnd s (r_w rect) (r_h rect) kerf = Some pos \<Longrightarrow>
             I (addPlacementR rnd s rect (pos_x pos) (pos_y pos) (pos_rotated pos))"
    and fresh: "\<And>i pos.
             findBestPositionR rnd (newSheet sheetW sheetL i kerf) (r_w rect) (r_h rect) kerf
               = Some pos \<Longrightarrow>
             I (addPlacementR rnd (newSheet sheetW sheetL i kerf) rect
                  (pos_x pos) (pos_y pos) (pos_rotated pos))"
    and inv: "\<forall>s \<in> set (fst st). I s"
  shows "\<forall>s \<in> set (fst (placeRectR rnd sheetW sheetL kerf st rect)). I s"
proof -
  obtain shs unpl where st: "st = (shs, unpl)" by (cases st)
  show ?thesis
  proof (cases "partFits (r_w rect) (r_h rect) sheetW sheetL")
    case False
    then show ?thesis using inv st by (simp add: placeRectR_def)
  next
    case True
    show ?thesis
    proof (cases "placeOnExistingR rnd shs rect kerf")
      case (Some shs')
      from placeOnExistingR_Some [OF Some] obtain pre s post pos where
        d: "shs = pre @ s # post"
        "findBestPositionR rnd s (r_w rect) (r_h rect) kerf = Some pos"
        "shs' = pre @ addPlacementR rnd s rect (pos_x pos) (pos_y pos) (pos_rotated pos) # post"
        by blast
      have "I s" using inv st d(1) by simp
      from step [OF this d(2)] have "\<forall>t \<in> set shs'. I t"
        using inv st d(1,3) by auto
      then show ?thesis using True Some st by (simp add: placeRectR_def)
    next
      case None
      show ?thesis
      proof (cases "findBestPositionR rnd (newSheet sheetW sheetL (length shs + 1) kerf)
                      (r_w rect) (r_h rect) kerf")
        case n: None
        then show ?thesis using True None inv st by (simp add: placeRectR_def Let_def)
      next
        case (Some pos)
        from fresh [OF Some] show ?thesis
          using True None Some inv st by (simp add: placeRectR_def Let_def)
      qed
    qed
  qed
qed

lemma nestPartsR_invariant:
  assumes step: "\<And>s pos rect. I s \<Longrightarrow>
             findBestPositionR rnd s (r_w rect) (r_h rect) kerf = Some pos \<Longrightarrow>
             I (addPlacementR rnd s rect (pos_x pos) (pos_y pos) (pos_rotated pos))"
    and fresh: "\<And>i pos rect.
             findBestPositionR rnd (newSheet sheetW sheetL i kerf) (r_w rect) (r_h rect) kerf
               = Some pos \<Longrightarrow>
             I (addPlacementR rnd (newSheet sheetW sheetL i kerf) rect
                  (pos_x pos) (pos_y pos) (pos_rotated pos))"
  shows "\<forall>s \<in> set (sheets (nestPartsR rnd parts sheetW sheetL kerf)). I s"
proof -
  have "\<forall>s \<in> set (fst (foldl (placeRectR rnd sheetW sheetL kerf) st rects)). I s"
    if "\<forall>s \<in> set (fst st). I s" for st rects
    using that
  proof (induction rects arbitrary: st)
    case Nil
    then show ?case by simp
  next
    case (Cons r rects)
    have "\<forall>s \<in> set (fst (placeRectR rnd sheetW sheetL kerf st r)). I s"
    proof (rule placeRectR_invariant [where I = I])
      show "\<forall>s \<in> set (fst st). I s" by (fact Cons.prems)
    qed (fact step, fact fresh)
    from Cons.IH [OF this] show ?case by simp
  qed
  from this [of "([], [])"] show ?thesis by (simp add: nestPartsR_def Let_def)
qed

lemma edge_bound:
  fixes a b c r s E bw :: rat
  assumes "0 \<le> a" and "r \<le> (b - a) * E" and "b \<le> c" and "c \<le> s * E" and "s \<le> bw"
    and "1 \<le> E"
  shows "a + r \<le> bw * E * E"
proof -
  have "0 \<le> a * (E - 1)" using assms(1,6) by simp
  then have "a + (b - a) * E \<le> b * E" by (simp add: algebra_simps)
  with assms(2) have 1: "a + r \<le> b * E" by linarith
  have 2: "b * E \<le> c * E" using assms(3,6) by (simp add: mult_right_mono)
  have 3: "c * E \<le> s * E * E" using assms(4,6) by (simp add: mult_right_mono)
  have 4: "s * E * E \<le> bw * E * E" using assms(5,6) by (simp add: mult_right_mono)
  from 1 2 3 4 show ?thesis by linarith
qed

lemma grow_bound:
  fixes v bw E :: rat
  assumes "v \<le> bw" and "0 \<le> bw" and "1 \<le> E"
  shows "v \<le> bw * E * E"
proof -
  have "bw * 1 \<le> bw * E" using assms(2,3) by (intro mult_left_mono) simp_all
  moreover have "bw * E * 1 \<le> bw * E * E" using assms(2,3) by (intro mult_left_mono) simp_all
  ultimately show ?thesis using assms(1) by simp
qed

lemma splitFreeR_within:
  assumes r: "roundsWithin rnd u" and f: "freeWithin bw bl f"
    and bw: "0 \<le> bw" and bl: "0 \<le> bl"
    and g: "g \<in> set (splitFreeR rnd ox oy ow oh f)"
    and gp: "0 < f_w g" "0 < f_h g"
  shows "freeWithin (bw * (1 + u) * (1 + u)) (bl * (1 + u) * (1 + u)) g"
proof -
  define E where "E = 1 + u"
  have E: "1 \<le> E" using r by (simp add: roundsWithin_def E_def)
  have rn: "\<And>x. 0 \<le> x \<Longrightarrow> rnd x \<le> x * E" using r by (simp add: roundsWithin_def E_def)
  have fx: "0 \<le> f_x f" and fy: "0 \<le> f_y f" and fw: "0 \<le> f_w f" and fh: "0 \<le> f_h f"
    and fr: "f_x f + f_w f \<le> bw" and fb: "f_y f + f_h f \<le> bl"
    using f by (simp_all add: freeWithin_def)
  have Bx: "rnd (f_x f + f_w f) \<le> (f_x f + f_w f) * E" using fx fw by (intro rn) simp
  have By: "rnd (f_y f + f_h f) \<le> (f_y f + f_h f) * E" using fy fh by (intro rn) simp
  have keepx: "f_x f + f_w f \<le> bw * E * E" by (rule grow_bound [OF fr bw E])
  have keepy: "f_y f + f_h f \<le> bl * E * E" by (rule grow_bound [OF fb bl E])
  show ?thesis
  proof (cases "ox \<ge> rnd (f_x f + f_w f) \<or> rnd (ox + ow) \<le> f_x f \<or>
         oy \<ge> rnd (f_y f + f_h f) \<or> rnd (oy + oh) \<le> f_y f")
    case True
    then have "g = f" using g by (simp add: splitFreeR_def)
    then show ?thesis using fx fy fw fh keepx keepy by (simp add: freeWithin_def E_def)
  next
    case False
    then have c: "ox < rnd (f_x f + f_w f)" "f_x f < rnd (ox + ow)"
      "oy < rnd (f_y f + f_h f)" "f_y f < rnd (oy + oh)" by simp_all
    from g False consider
      (left) "f_x f < ox" "g = \<lparr> f_x = f_x f, f_y = f_y f, f_w = rnd (ox - f_x f), f_h = f_h f \<rparr>"
    | (right) "rnd (ox + ow) < rnd (f_x f + f_w f)"
        "g = \<lparr> f_x = rnd (ox + ow), f_y = f_y f,
               f_w = rnd (rnd (f_x f + f_w f) - rnd (ox + ow)), f_h = f_h f \<rparr>"
    | (top) "f_y f < oy" "g = \<lparr> f_x = f_x f, f_y = f_y f, f_w = f_w f, f_h = rnd (oy - f_y f) \<rparr>"
    | (bottom) "rnd (oy + oh) < rnd (f_y f + f_h f)"
        "g = \<lparr> f_x = f_x f, f_y = rnd (oy + oh), f_w = f_w f,
               f_h = rnd (rnd (f_y f + f_h f) - rnd (oy + oh)) \<rparr>"
      by (auto simp: splitFreeR_def split: if_splits)
    then show ?thesis
    proof cases
      case left
      have "rnd (ox - f_x f) \<le> (ox - f_x f) * E" using left(1) by (intro rn) simp
      from edge_bound [OF fx this _ Bx fr E] c(1)
      have "f_x f + rnd (ox - f_x f) \<le> bw * E * E" by simp
      then show ?thesis using left(2) fx fy fh gp keepy by (simp add: freeWithin_def E_def)
    next
      case right
      have a: "0 \<le> rnd (ox + ow)" using c(2) fx by linarith
      have "rnd (rnd (f_x f + f_w f) - rnd (ox + ow)) \<le> (rnd (f_x f + f_w f) - rnd (ox + ow)) * E"
        using right(1) by (intro rn) simp
      from edge_bound [OF a this _ Bx fr E]
      have "rnd (ox + ow) + rnd (rnd (f_x f + f_w f) - rnd (ox + ow)) \<le> bw * E * E" by simp
      then show ?thesis using right(2) a fy fh gp keepy by (simp add: freeWithin_def E_def)
    next
      case top
      have "rnd (oy - f_y f) \<le> (oy - f_y f) * E" using top(1) by (intro rn) simp
      from edge_bound [OF fy this _ By fb E] c(3)
      have "f_y f + rnd (oy - f_y f) \<le> bl * E * E" by simp
      then show ?thesis using top(2) fx fy fw gp keepx by (simp add: freeWithin_def E_def)
    next
      case bottom
      have a: "0 \<le> rnd (oy + oh)" using c(4) fy by linarith
      have "rnd (rnd (f_y f + f_h f) - rnd (oy + oh)) \<le> (rnd (f_y f + f_h f) - rnd (oy + oh)) * E"
        using bottom(1) by (intro rn) simp
      from edge_bound [OF a this _ By fb E]
      have "rnd (oy + oh) + rnd (rnd (f_y f + f_h f) - rnd (oy + oh)) \<le> bl * E * E" by simp
      then show ?thesis using bottom(2) a fx fw gp keepx by (simp add: freeWithin_def E_def)
    qed
  qed
qed

lemma power_step: "(a::rat) * (1 + u) ^ (2 * Suc n) = a * (1 + u) ^ (2 * n) * (1 + u) * (1 + u)"
  by simp

lemma E_ge1: "roundsWithin rnd u \<Longrightarrow> (1::rat) \<le> (1 + u) ^ k"
  by (simp add: roundsWithin_def one_le_power)

lemma placedWithin_snoc:
  assumes "placedWithin W L u ps"
    and "0 \<le> pl_x p" "0 \<le> pl_y p"
    and "pl_x p + pl_w p \<le> W * (1 + u) ^ (2 * length ps)"
    and "pl_y p + pl_h p \<le> L * (1 + u) ^ (2 * length ps)"
  shows "placedWithin W L u (ps @ [p])"
  unfolding placedWithin_def
proof
  fix i assume "i \<in> set [0..<length (ps @ [p])]"
  then consider "i < length ps" | "i = length ps" by force
  then show "0 \<le> pl_x ((ps @ [p]) ! i) \<and> 0 \<le> pl_y ((ps @ [p]) ! i) \<and>
        pl_x ((ps @ [p]) ! i) + pl_w ((ps @ [p]) ! i) \<le> W * (1 + u) ^ (2 * i) \<and>
        pl_y ((ps @ [p]) ! i) + pl_h ((ps @ [p]) ! i) \<le> L * (1 + u) ^ (2 * i)"
  proof cases
    case 1
    then show ?thesis using assms(1) by (simp add: placedWithin_def nth_append)
  next
    case 2
    then show ?thesis using assms(2-5) by simp
  qed
qed

lemma addPlacementR_within:
  assumes r: "roundsWithin rnd u" and W: "0 \<le> sheetW" and L: "0 \<le> sheetL"
    and inv: "sheetWithin sheetW sheetL u s"
    and pos: "findBestPositionR rnd s (r_w rect) (r_h rect) k' = Some pos"
  shows "sheetWithin sheetW sheetL u
           (addPlacementR rnd s rect (pos_x pos) (pos_y pos) (pos_rotated pos))"
proof -
  define n where "n = length (placements s)"
  define bw where "bw = sheetW * (1 + u) ^ (2 * n)"
  define bl where "bl = sheetL * (1 + u) ^ (2 * n)"
  define p where "p = mkPlacement rect (pos_x pos) (pos_y pos) (pos_rotated pos)"
  have E: "(0::rat) \<le> (1 + u) ^ (2 * n)" using E_ge1 [OF r, of "2 * n"] by linarith
  have bw: "0 \<le> bw" and bl: "0 \<le> bl" using W L E by (simp_all add: bw_def bl_def)
  have free: "\<forall>f \<in> set (freeRects s). freeWithin bw bl f"
    using inv by (simp add: sheetWithin_def bw_def bl_def n_def)
  from findBestPositionR_Some [OF pos] obtain f where
    f: "f \<in> set (freeRects s)" "fitsInto (r_w rect) (r_h rect) pos f" by blast
  have ff: "freeWithin bw bl f" using free f(1) by simp
  have px: "0 \<le> pl_x p" "0 \<le> pl_y p" "pl_x p + pl_w p \<le> bw" "pl_y p + pl_h p \<le> bl"
    using ff f(2)
    by (auto simp: p_def mkPlacement_def fitsInto_def freeWithin_def split: if_splits)
  have placed: "placedWithin sheetW sheetL u (placements s @ [p])"
    using inv px by (intro placedWithin_snoc) (simp_all add: sheetWithin_def bw_def bl_def n_def)
  have newfree: "freeWithin (sheetW * (1 + u) ^ (2 * Suc n)) (sheetL * (1 + u) ^ (2 * Suc n)) g"
    if g: "g \<in> set (freeRects (addPlacementR rnd s rect (pos_x pos) (pos_y pos) (pos_rotated pos)))"
    for g
  proof -
    from freeRects_addPlacementR [OF g] obtain f' ow oh where
      gp: "0 < f_w g" "0 < f_h g" and f': "f' \<in> set (freeRects s)"
      and gs: "g \<in> set (splitFreeR rnd (pos_x pos) (pos_y pos) ow oh f')"
      by blast
    have "freeWithin bw bl f'" using free f' by simp
    from splitFreeR_within [OF r this bw bl gs gp] show ?thesis
      unfolding power_step bw_def bl_def .
  qed
  show ?thesis
    unfolding sheetWithin_def
    using newfree placed by (simp add: placements_addPlacementR p_def n_def)
qed

lemma newSheet_within:
  assumes "0 \<le> sheetW" and "0 \<le> sheetL"
  shows "sheetWithin sheetW sheetL u (newSheet sheetW sheetL i kerf)"
  using assms by (simp add: sheetWithin_def newSheet_def freeWithin_def placedWithin_def)

text \<open>
  C8, as the code has it. The program computes the free rectangles in double arithmetic,
  so the upper bounds hold up to rounding error. For every call of \<open>nestParts\<close> on a
  sheet whose sides are not negative, every placement has \<open>0 <= x\<close> and \<open>0 <= y\<close>, and
  the placement made on a sheet after \<open>i\<close> earlier ones (with \<open>w\<close>, \<open>h\<close> the placed,
  possibly rotated, dimensions) satisfies \<open>x + w <= sheetW * (1 + u) ^ (2 * i)\<close> and
  \<open>y + h <= sheetL * (1 + u) ^ (2 * i)\<close>, where \<open>u\<close> is the relative rounding error:
  \<open>2 ^ -53\<close> for doubles, and \<open>0\<close> when the arithmetic is exact. The first piece of a
  sheet is within the sheet exactly. This holds for all part dimensions and every kerf.
\<close>

theorem nestParts_placements_within_rounding:
  assumes "roundsWithin rnd u" and "0 \<le> sheetW" and "0 \<le> sheetL"
    and "s \<in> set (sheets (nestPartsR rnd parts sheetW sheetL kerf))"
    and "i < length (placements s)"
  shows "0 \<le> pl_x (placements s ! i) \<and> 0 \<le> pl_y (placements s ! i) \<and>
         pl_x (placements s ! i) + pl_w (placements s ! i) \<le> sheetW * (1 + u) ^ (2 * i) \<and>
         pl_y (placements s ! i) + pl_h (placements s ! i) \<le> sheetL * (1 + u) ^ (2 * i)"
proof -
  have "\<forall>s \<in> set (sheets (nestPartsR rnd parts sheetW sheetL kerf)). sheetWithin sheetW sheetL u s"
  proof (rule nestPartsR_invariant)
    fix s pos and rect :: Rectangle
    assume "sheetWithin sheetW sheetL u s"
      and "findBestPositionR rnd s (r_w rect) (r_h rect) kerf = Some pos"
    then show "sheetWithin sheetW sheetL u
                 (addPlacementR rnd s rect (pos_x pos) (pos_y pos) (pos_rotated pos))"
      by (rule addPlacementR_within [OF assms(1-3)])
  next
    fix i pos and rect :: Rectangle
    assume "findBestPositionR rnd (newSheet sheetW sheetL i kerf) (r_w rect) (r_h rect) kerf
              = Some pos"
    then show "sheetWithin sheetW sheetL u
                 (addPlacementR rnd (newSheet sheetW sheetL i kerf) rect
                    (pos_x pos) (pos_y pos) (pos_rotated pos))"
      by (rule addPlacementR_within [OF assms(1-3) newSheet_within [OF assms(2,3)]])
  qed
  with assms(4) have "placedWithin sheetW sheetL u (placements s)"
    by (simp add: sheetWithin_def)
  with assms(5) show ?thesis by (simp add: placedWithin_def)
qed

text \<open>
  A run in double arithmetic: a piece 48 by 15.9 and a piece 1 by 80.275 on a sheet 48 by
  96.3 with kerf 0.125. After the first piece the free rectangle below it starts at
  \<open>y = 16.025\<close> and has the height \<open>96.3 - 16.025\<close>, rounded to the double \<open>80.275\<close>; the
  second piece has exactly this height and is accepted.
\<close>

lemma twoParts_run:
  "map (\<lambda>s. map (\<lambda>p. (pl_x p, pl_y p, pl_w p, pl_h p, pl_rotated p)) (placements s))
     (sheets (nestPartsR fl64 twoParts 48 tallSheet (1 / 8))) =
   [[(0, 0, 48, 8950904259398861 / 562949953421312, False),
     (0, 2255318250894131 / 140737488355328, 1, 2824425469430989 / 35184372088832, False)]]"
  by code_simp

lemma tallSheet_value: "tallSheet = 6776510064309043 / 70368744177664"
  by code_simp

lemma twoParts_second:
  "length (sheets (nestPartsR fl64 twoParts 48 tallSheet (1 / 8))) = 1 \<and>
   length (placements (hd (sheets (nestPartsR fl64 twoParts 48 tallSheet (1 / 8))))) = 2 \<and>
   pl_x (placements (hd (sheets (nestPartsR fl64 twoParts 48 tallSheet (1 / 8)))) ! 1) = 0 \<and>
   pl_y (placements (hd (sheets (nestPartsR fl64 twoParts 48 tallSheet (1 / 8)))) ! 1) =
     2255318250894131 / 140737488355328 \<and>
   pl_w (placements (hd (sheets (nestPartsR fl64 twoParts 48 tallSheet (1 / 8)))) ! 1) = 1 \<and>
   pl_h (placements (hd (sheets (nestPartsR fl64 twoParts 48 tallSheet (1 / 8)))) ! 1) =
     2824425469430989 / 35184372088832"
proof -
  define shs where "shs = sheets (nestPartsR fl64 twoParts 48 tallSheet (1 / 8))"
  from twoParts_run obtain s where s: "shs = [s]"
    and m: "map (\<lambda>p. (pl_x p, pl_y p, pl_w p, pl_h p, pl_rotated p)) (placements s) =
      [(0, 0, 48, 8950904259398861 / 562949953421312, False),
       (0, 2255318250894131 / 140737488355328, 1, 2824425469430989 / 35184372088832, False)]"
    unfolding shs_def [symmetric] by (auto simp: map_eq_Cons_conv)
  from m obtain p0 p1 where p: "placements s = [p0, p1]"
    and v: "(pl_x p1, pl_y p1, pl_w p1, pl_h p1, pl_rotated p1) =
       (0, 2255318250894131 / 140737488355328, 1, 2824425469430989 / 35184372088832, False)"
    by (auto simp: map_eq_Cons_conv)
  show ?thesis
    unfolding shs_def [symmetric] using s p v by simp
qed

lemma twoParts_sum_rounded:
  "fl64 (2255318250894131 / 140737488355328 + 2824425469430989 / 35184372088832) =
     tallSheet + 1 / 2 ^ 46"
  by code_simp

text \<open>
  The claim C8 as stated fails: in the run above the second piece is placed at
  \<open>y = 16.025\<close> with \<open>h = 80.275\<close> (as doubles), and \<open>y + h\<close> exceeds the sheet length
  \<open>96.3\<close>: by \<open>2 ^ -47\<close> as an exact sum, and by \<open>2 ^ -46\<close> when the sum is rounded to a
  double (\<open>96.30000000000001\<close>).
\<close>

theorem placement_beyond_sheet_counterexample:
  "length (sheets (nestPartsR fl64 twoParts 48 tallSheet (1 / 8))) = 1 \<and>
   pl_y (placements (hd (sheets (nestPartsR fl64 twoParts 48 tallSheet (1 / 8)))) ! 1) +
   pl_h (placements (hd (sheets (nestPartsR fl64 twoParts 48 tallSheet (1 / 8)))) ! 1) =
     tallSheet + 1 / 2 ^ 47 \<and>
   tallSheet <
     pl_y (placements (hd (sheets (nestPartsR fl64 twoParts 48 tallSheet (1 / 8)))) ! 1) +
     pl_h (placements (hd (sheets (nestPartsR fl64 twoParts 48 tallSheet (1 / 8)))) ! 1) \<and>
   tallSheet <
     fl64 (pl_y (placements (hd (sheets (nestPartsR fl64 twoParts 48 tallSheet (1 / 8)))) ! 1) +
           pl_h (placements (hd (sheets (nestPartsR fl64 twoParts 48 tallSheet (1 / 8)))) ! 1))"
proof -
  from twoParts_second
  have y: "pl_y (placements (hd (sheets (nestPartsR fl64 twoParts 48 tallSheet (1 / 8)))) ! 1) =
             2255318250894131 / 140737488355328"
    and h: "pl_h (placements (hd (sheets (nestPartsR fl64 twoParts 48 tallSheet (1 / 8)))) ! 1) =
             2824425469430989 / 35184372088832"
    by blast+
  have "fl64 (pl_y (placements (hd (sheets (nestPartsR fl64 twoParts 48 tallSheet (1 / 8)))) ! 1) +
           pl_h (placements (hd (sheets (nestPartsR fl64 twoParts 48 tallSheet (1 / 8)))) ! 1)) =
        tallSheet + 1 / 2 ^ 46"
    unfolding y h by (rule twoParts_sum_rounded)
  then have "tallSheet <
     fl64 (pl_y (placements (hd (sheets (nestPartsR fl64 twoParts 48 tallSheet (1 / 8)))) ! 1) +
           pl_h (placements (hd (sheets (nestPartsR fl64 twoParts 48 tallSheet (1 / 8)))) ! 1))"
    by simp
  moreover have "length (sheets (nestPartsR fl64 twoParts 48 tallSheet (1 / 8))) = 1 \<and>
   pl_y (placements (hd (sheets (nestPartsR fl64 twoParts 48 tallSheet (1 / 8)))) ! 1) +
   pl_h (placements (hd (sheets (nestPartsR fl64 twoParts 48 tallSheet (1 / 8)))) ! 1) =
     tallSheet + 1 / 2 ^ 47 \<and>
   tallSheet <
     pl_y (placements (hd (sheets (nestPartsR fl64 twoParts 48 tallSheet (1 / 8)))) ! 1) +
     pl_h (placements (hd (sheets (nestPartsR fl64 twoParts 48 tallSheet (1 / 8)))) ! 1)"
    using twoParts_second by (simp add: tallSheet_value)
  ultimately show ?thesis by blast
qed

theorem nestParts_placements_within_rounding_witness:
  "roundsWithin fl64 (1 / 2 ^ 53) \<and> (0::rat) \<le> 48 \<and> 0 \<le> tallSheet \<and>
   hd (sheets (nestPartsR fl64 twoParts 48 tallSheet (1 / 8))) \<in>
     set (sheets (nestPartsR fl64 twoParts 48 tallSheet (1 / 8))) \<and>
   1 < length (placements (hd (sheets (nestPartsR fl64 twoParts 48 tallSheet (1 / 8))))) \<and>
   0 \<le> pl_x (placements (hd (sheets (nestPartsR fl64 twoParts 48 tallSheet (1 / 8)))) ! 1) \<and>
   0 \<le> pl_y (placements (hd (sheets (nestPartsR fl64 twoParts 48 tallSheet (1 / 8)))) ! 1) \<and>
   pl_x (placements (hd (sheets (nestPartsR fl64 twoParts 48 tallSheet (1 / 8)))) ! 1) +
   pl_w (placements (hd (sheets (nestPartsR fl64 twoParts 48 tallSheet (1 / 8)))) ! 1)
     \<le> 48 * (1 + 1 / 2 ^ 53) ^ (2 * 1) \<and>
   pl_y (placements (hd (sheets (nestPartsR fl64 twoParts 48 tallSheet (1 / 8)))) ! 1) +
   pl_h (placements (hd (sheets (nestPartsR fl64 twoParts 48 tallSheet (1 / 8)))) ! 1)
     \<le> tallSheet * (1 + 1 / 2 ^ 53) ^ (2 * 1)"
proof -
  have r: "roundsWithin fl64 (1 / 2 ^ 53)" by (rule fl64_roundsWithin)
  have w: "(0::rat) \<le> 48" by simp
  have l: "0 \<le> tallSheet" by (simp add: tallSheet_value)
  have "sheets (nestPartsR fl64 twoParts 48 tallSheet (1 / 8)) \<noteq> []"
    using twoParts_second by auto
  then have m: "hd (sheets (nestPartsR fl64 twoParts 48 tallSheet (1 / 8))) \<in>
     set (sheets (nestPartsR fl64 twoParts 48 tallSheet (1 / 8)))"
    by simp
  have i: "1 < length (placements (hd (sheets (nestPartsR fl64 twoParts 48 tallSheet (1 / 8)))))"
    using twoParts_second by simp
  show ?thesis
    using r w l m i nestParts_placements_within_rounding [OF r w l m i] by blast
qed

subsection \<open>The exact nesting as an instance\<close>

lemma containedInR_exact: "containedInR (\<lambda>x. x) r o' = containedIn r o'"
  by (simp add: containedInR_def containedIn_def)

lemma keepAtR_exact: "keepAtR (\<lambda>x. x) rects = keepAt rects"
  by (rule ext)
    (simp add: keepAtR_def keepAt_def containedAtR_def containedAt_def containedInR_exact)

lemma removeDuplicateRectsR_exact:
  "removeDuplicateRectsR (\<lambda>x. x) rects = removeDuplicateRects rects"
  by (simp add: removeDuplicateRectsR_def removeDuplicateRects_def keepAtR_exact)

lemma splitFreeR_exact: "splitFreeR (\<lambda>x. x) ox oy ow oh = splitFree ox oy ow oh"
  by (rule ext) (simp add: splitFreeR_def splitFree_def)

lemma addPlacementR_exact:
  "addPlacementR (\<lambda>x. x) s rect x y rot = addPlacement s rect x y rot"
  by (simp add: addPlacementR_def addPlacement_def updateFreeRectsR_def updateFreeRects_def
      removeDuplicateRectsR_exact splitFreeR_exact)

lemma tryFreeRectR_exact: "tryFreeRectR (\<lambda>x. x) w h = tryFreeRect w h"
  by (intro ext) (simp add: tryFreeRectR_def tryFreeRect_def)

lemma findBestPositionR_exact:
  "findBestPositionR (\<lambda>x. x) s w h kerf = findBestPosition s w h kerf"
  by (simp add: findBestPositionR_def findBestPosition_def tryFreeRectR_exact)

lemma compareRectsR_exact: "compareRectsR (\<lambda>x. x) a b = compareRects a b"
  by (simp add: compareRectsR_def compareRects_def)

lemma insertRectR_exact: "insertRectR (\<lambda>x. x) a bs = insertRect a bs"
  by (induction bs) (simp_all add: compareRectsR_exact)

lemma sortRectsR_exact: "sortRectsR (\<lambda>x. x) rects = sortRects rects"
proof -
  have "insertRectR (\<lambda>x. x) = insertRect"
    by (intro ext) (rule insertRectR_exact)
  then show ?thesis by (simp add: sortRectsR_def sortRects_def)
qed

lemma placeOnExistingR_exact:
  "placeOnExistingR (\<lambda>x. x) shs rect kerf = placeOnExisting shs rect kerf"
  by (induction shs)
    (simp_all add: findBestPositionR_exact addPlacementR_exact cong: option.case_cong)

lemma placeRectR_exact:
  "placeRectR (\<lambda>x. x) sheetW sheetL kerf = placeRect sheetW sheetL kerf"
  by (intro ext)
    (simp add: placeRectR_def placeRect_def placeOnExistingR_exact
      findBestPositionR_exact addPlacementR_exact Let_def
      cong: option.case_cong prod.case_cong if_cong)

text \<open>With the identity as rounding function the rounded nesting is the exact one.\<close>

lemma nestPartsR_exact:
  "nestPartsR (\<lambda>x. x) parts sheetW sheetL kerf = nestParts parts sheetW sheetL kerf"
  by (simp add: nestPartsR_def nestParts_def sortRectsR_exact placeRectR_exact)

section \<open>Splitting oversized parts\<close>

lemma refineCount_ge: "n \<le> refineCount len m g tries n"
proof (induction tries arbitrary: n)
  case 0
  then show ?case by simp
next
  case (Suc tries)
  have "n + 1 \<le> refineCount len m g tries (n + 1)" by (rule Suc.IH)
  then show ?case by simp
qed

lemma refineCount_no_converge:
  assumes "\<forall>t < k. \<not> sizeOk len m g (n + int t)"
  shows "refineCount len m g k n = n + int k"
  using assms
proof (induction k arbitrary: n)
  case 0
  then show ?case by simp
next
  case (Suc k)
  from Suc.prems have first: "\<not> sizeOk len m g n" by force
  have "\<forall>t < k. \<not> sizeOk len m g (n + 1 + int t)"
  proof (intro allI impI)
    fix t assume "t < k"
    then have "\<not> sizeOk len m g (n + int (Suc t))" using Suc.prems by blast
    then show "\<not> sizeOk len m g (n + 1 + int t)" by (simp add: add.assoc)
  qed
  from Suc.IH [OF this] first show ?case by simp
qed

lemma ceiling_quotient_pos:
  fixes a m :: rat
  assumes "0 < a" and "0 < m"
  shows "1 \<le> \<lceil>a / m\<rceil>"
proof -
  have "0 < a / m" using assms by simp
  then have "0 < \<lceil>a / m\<rceil>" by (simp add: ceiling_less_iff) 
  then show ?thesis by linarith
qed

lemma refineCount_pos:
  fixes a m :: rat
  assumes "0 < a" and "0 < m"
  shows "1 \<le> refineCount a m g tries \<lceil>a / m\<rceil>"
  using ceiling_quotient_pos [OF assms] refineCount_ge [of "\<lceil>a / m\<rceil>" a m g tries]
  by linarith

lemma calcStripLayout_Some:
  assumes "calcStripLayout splitDim kd sw sl g = Some r"
  shows "0 < maxStripDim kd sw sl \<and> keepDim r = kd \<and>
         refineCount splitDim (maxStripDim kd sw sl) g 10
           \<lceil>splitDim / maxStripDim kd sw sl\<rceil> = stripCount r \<and>
         (if stripCount r = 0 then stripSize r = NaN
          else stripSize r = Num (sizeFor splitDim g (stripCount r)) \<and>
               0 < sizeFor splitDim g (stripCount r) \<and>
               sizeFor splitDim g (stripCount r) \<le> maxStripDim kd sw sl)"
  using assms
  by (auto simp: calcStripLayout_def Let_def sizeFor_def split: if_splits)

lemma sizeFor_reconstructs:
  assumes "n \<noteq> 0"
  shows "of_int n * sizeFor len g n + (of_int n - 1) * g = len"
  using assms by (simp add: sizeFor_def)

text \<open>
  C6. For every non-null result of \<open>calcStripLayout\<close> with strip count \<open>N\<close> and strip size
  \<open>s\<close>: \<open>N * s + (N - 1) * seamGap = splitDim\<close>, exactly, and \<open>s\<close> is at most the maximal
  strip dimension derived from \<open>keepDim\<close> and the stock. The strip size is a number
  whenever the split dimension is positive; the one result whose strip size is NaN
  (strip count \<open>0\<close>) needs a split dimension that is not positive.
\<close>

theorem calcStripLayout_reconstructs_split:
  assumes "calcStripLayout splitDim kd sw sl g = Some r"
  shows "(case stripSize r of
            Num s \<Rightarrow>
              of_int (stripCount r) * s + (of_int (stripCount r) - 1) * g = splitDim \<and>
              s \<le> maxStripDim kd sw sl
          | NaN \<Rightarrow> splitDim \<le> 0)"
proof -
  note f = calcStripLayout_Some [OF assms]
  show ?thesis
  proof (cases "stripCount r = 0")
    case True
    have "\<not> 0 < splitDim"
    proof
      assume "0 < splitDim"
      from refineCount_pos [OF this, of "maxStripDim kd sw sl" g 10] f True
      show False by simp
    qed
    with f True show ?thesis by simp
  next
    case False
    from f False have sz: "stripSize r = Num (sizeFor splitDim g (stripCount r))"
      and le: "sizeFor splitDim g (stripCount r) \<le> maxStripDim kd sw sl"
      by simp_all
    from sizeFor_reconstructs [OF False, of splitDim g] le show ?thesis
      unfolding sz by simp
  qed
qed

theorem calcStripLayout_reconstructs_split_witness:
  "calcStripLayout 200 96 48 96 (1 / 8) =
     Some \<lparr> stripSize = Num (399 / 10), keepDim = 96, stripCount = 5 \<rparr> \<and>
   5 * (399 / 10) + (5 - 1) * (1 / 8) = (200::rat) \<and> (399 / 10 :: rat) \<le> maxStripDim 96 48 96"
proof -
  have h: "calcStripLayout 200 96 48 96 (1 / 8) =
     Some \<lparr> stripSize = Num (399 / 10), keepDim = 96, stripCount = 5 \<rparr>"
    by code_simp
  show ?thesis using h calcStripLayout_reconstructs_split [OF h] by simp
qed

text \<open>
  C5, as the code has it. When the refinement loop of \<open>calcStripLayout\<close> does not
  converge within its ten attempts (for a positive split dimension), the function still
  returns: it computes the strip size once more, for the strip count after ten
  increments, and returns that layout only when this strip size is positive and at most
  the maximal strip dimension; otherwise it returns \<open>null\<close>, and the option is reported as
  not possible.
\<close>

theorem calcStripLayout_after_failed_refinement:
  assumes keep: "kd \<le> sw \<or> kd \<le> sl" and m: "0 < maxStripDim kd sw sl"
    and pos: "0 < splitDim"
    and nc: "neverConverges splitDim (maxStripDim kd sw sl) g \<lceil>splitDim / maxStripDim kd sw sl\<rceil>"
  shows "calcStripLayout splitDim kd sw sl g =
           (if 0 < sizeFor splitDim g (\<lceil>splitDim / maxStripDim kd sw sl\<rceil> + 10) \<and>
               sizeFor splitDim g (\<lceil>splitDim / maxStripDim kd sw sl\<rceil> + 10) \<le> maxStripDim kd sw sl
            then Some \<lparr> stripSize = Num (sizeFor splitDim g (\<lceil>splitDim / maxStripDim kd sw sl\<rceil> + 10)),
                        keepDim = kd, stripCount = \<lceil>splitDim / maxStripDim kd sw sl\<rceil> + 10 \<rparr>
            else None)"
proof -
  define n0 where "n0 = \<lceil>splitDim / maxStripDim kd sw sl\<rceil>"
  have "\<forall>t < 10. \<not> sizeOk splitDim (maxStripDim kd sw sl) g (n0 + int t)"
    using nc by (simp add: neverConverges_def n0_def)
  from refineCount_no_converge [OF this]
  have n: "refineCount splitDim (maxStripDim kd sw sl) g 10 n0 = n0 + 10" by simp
  have "1 \<le> n0" unfolding n0_def by (rule ceiling_quotient_pos [OF pos m])
  then have nz: "n0 + 10 \<noteq> 0" by linarith
  show ?thesis
    using keep m n nz unfolding n0_def [symmetric]
    by (auto simp: calcStripLayout_def Let_def sizeFor_def n0_def [symmetric])
qed

text \<open>
  The claim C5 as stated fails: for a split dimension 1, kept dimension 1/2, stock
  1/2 by 1/2 and kerf 1/8 the loop never converges and \<open>calcStripLayout\<close> returns \<open>null\<close>;
  \<open>fitOrSplit\<close> then reports that the part cannot be split.
\<close>

theorem failed_refinement_returns_null_counterexample:
  "neverConverges 1 (maxStripDim (1 / 2) (1 / 2) (1 / 2)) (1 / 8)
     \<lceil>1 / maxStripDim (1 / 2) (1 / 2) (1 / 2)\<rceil> \<and>
   calcStripLayout 1 (1 / 2) (1 / 2) (1 / 2) (1 / 8) = None \<and>
   warning (fitOrSplit (1 / 2) 1 (1 / 2) (1 / 2) (1 / 8) True) = Some ''cannot be split to fit stock''"
  by code_simp

theorem calcStripLayout_after_failed_refinement_witness:
  "((1 / 2 :: rat) \<le> 1 / 2 \<or> (1 / 2 :: rat) \<le> 1 / 2) \<and>
   0 < maxStripDim (1 / 2) (1 / 2) (1 / 2) \<and> (0::rat) < 2 \<and>
   neverConverges 2 (maxStripDim (1 / 2) (1 / 2) (1 / 2)) (1 / 8)
     \<lceil>2 / maxStripDim (1 / 2) (1 / 2) (1 / 2)\<rceil> \<and>
   calcStripLayout 2 (1 / 2) (1 / 2) (1 / 2) (1 / 8) =
     Some \<lparr> stripSize = Num (3 / 112), keepDim = 1 / 2, stripCount = 14 \<rparr>"
proof -
  have k: "(1 / 2 :: rat) \<le> 1 / 2 \<or> (1 / 2 :: rat) \<le> 1 / 2" by simp
  have m: "0 < maxStripDim (1 / 2) (1 / 2) (1 / 2)" by code_simp
  have p: "(0::rat) < 2" by simp
  have nc: "neverConverges 2 (maxStripDim (1 / 2) (1 / 2) (1 / 2)) (1 / 8)
     \<lceil>2 / maxStripDim (1 / 2) (1 / 2) (1 / 2)\<rceil>" by code_simp
  have v: "(if 0 < sizeFor 2 (1 / 8) (\<lceil>2 / maxStripDim (1 / 2) (1 / 2) (1 / 2)\<rceil> + 10) \<and>
               sizeFor 2 (1 / 8) (\<lceil>2 / maxStripDim (1 / 2) (1 / 2) (1 / 2)\<rceil> + 10) \<le> maxStripDim (1 / 2) (1 / 2) (1 / 2)
            then Some \<lparr> stripSize = Num (sizeFor 2 (1 / 8) (\<lceil>2 / maxStripDim (1 / 2) (1 / 2) (1 / 2)\<rceil> + 10)),
                        keepDim = 1 / 2, stripCount = \<lceil>2 / maxStripDim (1 / 2) (1 / 2) (1 / 2)\<rceil> + 10 \<rparr>
            else None) = Some \<lparr> stripSize = Num (3 / 112), keepDim = 1 / 2, stripCount = 14 \<rparr>"
    by code_simp
  show ?thesis using k m p nc calcStripLayout_after_failed_refinement [OF k m p nc] v by simp
qed

lemma chooseStrip_both:
  "chooseStrip (Some a) (Some b) =
     (if stripCount a \<le> stripCount b then Some (a, Width) else Some (b, Length))"
  by (simp add: chooseStrip_def)

text \<open>
  C7. For an oversized part for which both strip options exist, \<open>fitOrSplit\<close> (splitting
  allowed) builds its result from the option with the smaller strip count, and from the
  width split when the two counts are equal.
\<close>

theorem fitOrSplit_prefers_fewer_strips:
  assumes "\<not> partFitsStock partW partL stockW stockL"
    and "calcStripLayout partW partL stockW stockL g = Some a"
    and "calcStripLayout partL partW stockW stockL g = Some b"
  shows "fitOrSplit partW partL stockW stockL g True =
           (if stripCount a \<le> stripCount b then stripResult a Width else stripResult b Length)"
  using assms by (simp add: fitOrSplit_def chooseStrip_both)

theorem fitOrSplit_prefers_fewer_strips_witness:
  "\<not> partFitsStock 60 90 48 96 \<and>
   calcStripLayout 60 90 48 96 (1 / 8) =
     Some \<lparr> stripSize = Num (479 / 16), keepDim = 90, stripCount = 2 \<rparr> \<and>
   calcStripLayout 90 60 48 96 (1 / 8) =
     Some \<lparr> stripSize = Num (719 / 16), keepDim = 60, stripCount = 2 \<rparr> \<and>
   fitOrSplit 60 90 48 96 (1 / 8) True =
     stripResult \<lparr> stripSize = Num (479 / 16), keepDim = 90, stripCount = 2 \<rparr> Width \<and>
   \<not> partFitsStock 95 25 10 100 \<and>
   calcStripLayout 95 25 10 100 (1 / 8) =
     Some \<lparr> stripSize = Num (751 / 80), keepDim = 25, stripCount = 10 \<rparr> \<and>
   calcStripLayout 25 95 10 100 (1 / 8) =
     Some \<lparr> stripSize = Num (33 / 4), keepDim = 95, stripCount = 3 \<rparr> \<and>
   fitOrSplit 95 25 10 100 (1 / 8) True =
     stripResult \<lparr> stripSize = Num (33 / 4), keepDim = 95, stripCount = 3 \<rparr> Length"
proof -
  have n: "\<not> partFitsStock 60 90 48 96" by code_simp
  have a: "calcStripLayout 60 90 48 96 (1 / 8) =
     Some \<lparr> stripSize = Num (479 / 16), keepDim = 90, stripCount = 2 \<rparr>"
    by code_simp
  have b: "calcStripLayout 90 60 48 96 (1 / 8) =
     Some \<lparr> stripSize = Num (719 / 16), keepDim = 60, stripCount = 2 \<rparr>"
    by code_simp
  have tie: "fitOrSplit 60 90 48 96 (1 / 8) True =
     stripResult \<lparr> stripSize = Num (479 / 16), keepDim = 90, stripCount = 2 \<rparr> Width"
    using fitOrSplit_prefers_fewer_strips [OF n a b] by simp
  have n': "\<not> partFitsStock 95 25 10 100" by code_simp
  have a': "calcStripLayout 95 25 10 100 (1 / 8) =
     Some \<lparr> stripSize = Num (751 / 80), keepDim = 25, stripCount = 10 \<rparr>"
    by code_simp
  have b': "calcStripLayout 25 95 10 100 (1 / 8) =
     Some \<lparr> stripSize = Num (33 / 4), keepDim = 95, stripCount = 3 \<rparr>"
    by code_simp
  have fewer: "fitOrSplit 95 25 10 100 (1 / 8) True =
     stripResult \<lparr> stripSize = Num (33 / 4), keepDim = 95, stripCount = 3 \<rparr> Length"
    using fitOrSplit_prefers_fewer_strips [OF n' a' b'] by simp
  show ?thesis using n a b tie n' a' b' fewer by blast
qed

text \<open>
  The claim C4 as stated fails: the part 96 by 200 against stock 48 by 96 with kerf 1/8
  is split into 5 strips, not 3.
\<close>

theorem scenario_A_strip_count_counterexample:
  "fs_stripCount (fitOrSplit 96 200 48 96 (1 / 8) True) = 5 \<and>
   length (pieces (fitOrSplit 96 200 48 96 (1 / 8) True)) = 5 \<and>
   fs_stripCount (fitOrSplit 96 200 48 96 (1 / 8) True) \<noteq> 3"
  by code_simp

text \<open>
  C4, as the code has it. For the part 96 by 200 against stock 48 by 96 with kerf 1/8 and
  splitting allowed, \<open>fitOrSplit\<close> returns a strip split along the 200 inch axis with
  exactly 5 strips, each piece of width 96 and length \<open>(200 - 4 * 0.125) / 5 = 39.9\<close>. The
  kept dimension 96 fits only the stock length, so a strip is at most the stock width
  48; the width split is not possible.
\<close>

theorem scenario_A_five_strips:
  "fitOrSplit 96 200 48 96 (1 / 8) True =
     \<lparr> fits = False,
       pieces =
         [\<lparr> pc_w = Num 96, pc_l = Num (399 / 10), suffix = '' [1/5]'' \<rparr>,
          \<lparr> pc_w = Num 96, pc_l = Num (399 / 10), suffix = '' [2/5]'' \<rparr>,
          \<lparr> pc_w = Num 96, pc_l = Num (399 / 10), suffix = '' [3/5]'' \<rparr>,
          \<lparr> pc_w = Num 96, pc_l = Num (399 / 10), suffix = '' [4/5]'' \<rparr>,
          \<lparr> pc_w = Num 96, pc_l = Num (399 / 10), suffix = '' [5/5]'' \<rparr>],
       fs_stripCount = 5, warning = Some ''will be split into 5 pieces'', noSplit = False \<rparr> \<and>
   calcStripLayout 96 200 48 96 (1 / 8) = None \<and>
   maxStripDim 96 48 96 = 48 \<and>
   (200 - (5 - 1) * (1 / 8)) / 5 = (399 / 10 :: rat)"
  by code_simp

subsection \<open>Further facts about the splitter\<close>

text \<open>
  The grid layout validates the sizes it computed after its loops with the full test, so
  a grid whose refinement did not converge is never returned.
\<close>

lemma gridCandidate_valid:
  assumes "gridCandidate partW partL sw sl g = Some gl"
  shows "1 / 2 < pieceW gl \<and> pieceW gl \<le> sw \<and> 1 / 2 < pieceL gl \<and> pieceL gl \<le> sl \<and>
         total gl = cols gl * rows gl"
  using assms by (auto simp: gridCandidate_def Let_def split: if_splits)

lemma betterGrid_cases:
  assumes "betterGrid best cand = Some gl"
  shows "best = Some gl \<or> cand = Some gl"
  using assms by (auto simp: betterGrid_def split: option.splits if_splits)

lemma calcGridLayout_valid:
  assumes "calcGridLayout partW partL stockW stockL g = Some gl"
  shows "1 / 2 < pieceW gl \<and> 1 / 2 < pieceL gl \<and>
         ((pieceW gl \<le> stockW \<and> pieceL gl \<le> stockL) \<or>
          (pieceW gl \<le> stockL \<and> pieceL gl \<le> stockW))"
proof -
  from assms have
    "betterGrid (betterGrid None (gridCandidate partW partL stockW stockL g))
       (gridCandidate partW partL stockL stockW g) = Some gl"
    by (simp add: calcGridLayout_def)
  then have "gridCandidate partW partL stockW stockL g = Some gl \<or>
             gridCandidate partW partL stockL stockW g = Some gl"
    using betterGrid_cases by (metis option.distinct(1))
  then show ?thesis using gridCandidate_valid by blast
qed

text \<open>
  \<open>fitOrSplit\<close> calls \<open>calcStripLayout\<close> only for a part that does not fit the stock. A
  non-null strip layout then has a positive split dimension and a numeric strip size.
\<close>

lemma calcStripLayout_numeric_when_oversized:
  assumes "calcStripLayout splitDim kd sw sl g = Some r"
    and "\<not> partFitsStock splitDim kd sw sl"
  shows "0 < splitDim \<and> stripSize r \<noteq> NaN"
proof -
  have keep: "kd \<le> sw \<or> kd \<le> sl" and m: "0 < maxStripDim kd sw sl"
    using assms(1) by (auto simp: calcStripLayout_def Let_def split: if_splits)
  have pos: "0 < splitDim"
  proof (rule ccontr)
    assume "\<not> 0 < splitDim"
    then have "partFitsStock splitDim kd sw sl"
      using keep m by (auto simp: partFitsStock_def maxStripDim_def Let_def split: if_splits)
    with assms(2) show False by simp
  qed
  note f = calcStripLayout_Some [OF assms(1)]
  from refineCount_pos [OF pos m, of g 10] f have "stripCount r \<noteq> 0" by simp
  with f pos show ?thesis by simp
qed

end
